theory Spec2Isabelle
  imports Main
begin

section \<open>Embedding of the bridge's source\<close>

subsection \<open>JavaScript values used by the bridge\<close>

text \<open>
  A JavaScript string is a list of code units; \<open>s.length\<close> is the length of the list and
  the empty string is the only falsy string.  A \<open>Set<string>\<close> keeps its members in
  insertion order and without repetition: it is a list, \<open>add\<close> appends a value that is not
  yet a member, \<open>delete\<close> removes the value, \<open>values().next().value\<close> is the head
  (\<open>undefined\<close>, here \<open>None\<close>, for the empty set).
\<close>

definition truthy :: "string \<Rightarrow> bool" where
  "truthy s = (s \<noteq> [])"

definition set_has :: "string list \<Rightarrow> string \<Rightarrow> bool" where
  "set_has s x = (x \<in> set s)"

definition set_add :: "string list \<Rightarrow> string \<Rightarrow> string list" where
  "set_add s x = (if x \<in> set s then s else s @ [x])"

definition set_delete :: "string list \<Rightarrow> string \<Rightarrow> string list" where
  "set_delete s x = removeAll x s"

definition set_size :: "string list \<Rightarrow> nat" where
  "set_size s = length s"

definition set_first :: "string list \<Rightarrow> string option" where
  "set_first s = (case s of [] \<Rightarrow> None | x # _ \<Rightarrow> Some x)"

subsection \<open>Dedup cache: \<open>isMessageProcessed\<close>\<close>

text \<open>
  \<open>TeamsClient.isMessageProcessed\<close> (teamsClient.ts, lines 93 to 104).  The module-level
  set \<open>processedMessageIds\<close> is passed in and returned.  The evicted value is
  \<open>processedMessageIds.values().next().value || ''\<close>.
\<close>

definition Teams_isMessageProcessed :: "string list \<Rightarrow> string \<Rightarrow> bool \<times> string list" where
  "Teams_isMessageProcessed processedMessageIds messageId =
     (if set_has processedMessageIds messageId then (True, processedMessageIds)
      else
        let ids = set_add processedMessageIds messageId in
        if set_size ids > 2000 then
          let first = (case set_first ids of
                         None \<Rightarrow> []
                       | Some v \<Rightarrow> if truthy v then v else [])
          in (False, set_delete ids first)
        else (False, ids))"

text \<open>
  \<open>FeishuClient.isMessageProcessed\<close> (lines 44 to 56 of the Feishu client).  Here the
  evicted value is \<open>processedMessageIds.values().next().value\<close> as it is; deleting
  \<open>undefined\<close> from a set of strings removes nothing.
\<close>

definition Feishu_isMessageProcessed :: "string list \<Rightarrow> string \<Rightarrow> bool \<times> string list" where
  "Feishu_isMessageProcessed processedMessageIds messageId =
     (if set_has processedMessageIds messageId then (True, processedMessageIds)
      else
        let ids = set_add processedMessageIds messageId in
        if set_size ids > 2000 then
          (case set_first ids of
             None \<Rightarrow> (False, ids)
           | Some first \<Rightarrow> (False, set_delete ids first))
        else (False, ids))"

text \<open>A sequence of dedup checks, threading the set through as the adapter does.\<close>

fun processAll :: "(string list \<Rightarrow> string \<Rightarrow> bool \<times> string list) \<Rightarrow> string list \<Rightarrow> string list \<Rightarrow> string list" where
  "processAll check ids [] = ids"
| "processAll check ids (x # xs) = processAll check (snd (check ids x)) xs"

subsection \<open>Feishu receive paths\<close>

text \<open>
  \<open>parseAndCleanContent\<close> decodes the JSON content of a message, removes the mention
  placeholders and trims; it returns the empty string when decoding fails.  It is a pure
  function of the raw content and the mentions, which the model keeps together as one value
  of type \<open>'c\<close>, and it is a parameter of the receive functions.  A call of the
  \<open>onMessage\<close> handler is recorded as a value.
\<close>

datatype handler_call = OnMessage (call_chatId: string) (call_text: string)
  (call_messageId: string) (call_senderId: string)

definition or_empty :: "string option \<Rightarrow> string" where
  "or_empty v = (case v of None \<Rightarrow> [] | Some s \<Rightarrow> if truthy s then s else [])"

text \<open>
  The \<open>im.message.receive_v1\<close> callback registered by \<open>startWebSocket\<close> (lines 146 to
  159).  \<open>ws_sender_open_id\<close> is \<open>message.sender?.sender_id?.open_id\<close>.
\<close>

record 'c ws_data =
  ws_message_id :: string
  ws_chat_id :: string
  ws_content :: 'c
  ws_sender_open_id :: "string option"

definition ws_receive ::
  "('c \<Rightarrow> string) \<Rightarrow> string list \<Rightarrow> 'c ws_data \<Rightarrow> string list \<times> handler_call option" where
  "ws_receive parseAndCleanContent processedMessageIds message =
     (let messageId = ws_message_id message;
          chatId = ws_chat_id message;
          senderId = or_empty (ws_sender_open_id message);
          (processed, ids) = Feishu_isMessageProcessed processedMessageIds messageId
      in if processed then (ids, None)
         else
           let text = parseAndCleanContent (ws_content message) in
           if \<not> truthy text then (ids, None)
           else (ids, Some (OnMessage chatId text messageId senderId)))"

text \<open>
  The request callback of \<open>startWebhook\<close> from the decoded (and decrypted) body on (lines
  202 to 230); a request that is not a POST, has an empty body or fails to decode or to
  decrypt ends before.  \<open>ev_message_id\<close> is \<open>event.message?.message_id\<close>,
  \<open>ev_chat_id\<close> is \<open>event.message?.chat_id\<close>, and the content is read only behind the
  guard on both.
\<close>

record 'c webhook_event =
  ev_message_id :: "string option"
  ev_chat_id :: "string option"
  ev_content :: 'c
  ev_sender_open_id :: "string option"

datatype 'c webhook_body = UrlVerification | MessageReceive "'c webhook_event" | OtherBody

fun webhook_receive ::
  "('c \<Rightarrow> string) \<Rightarrow> string list \<Rightarrow> 'c webhook_body \<Rightarrow> string list \<times> handler_call option" where
  "webhook_receive parseAndCleanContent processedMessageIds UrlVerification =
     (processedMessageIds, None)"
| "webhook_receive parseAndCleanContent processedMessageIds (MessageReceive event) =
     (let senderId = or_empty (ev_sender_open_id event) in
      case (ev_message_id event, ev_chat_id event) of
        (Some messageId, Some chatId) \<Rightarrow>
          if truthy messageId \<and> truthy chatId then
            let (processed, ids) = Feishu_isMessageProcessed processedMessageIds messageId
            in if processed then (ids, None)
               else
                 let text = parseAndCleanContent (ev_content event) in
                 if truthy text then (ids, Some (OnMessage chatId text messageId senderId))
                 else (ids, None)
          else (processedMessageIds, None)
      | _ \<Rightarrow> (processedMessageIds, None))"
| "webhook_receive parseAndCleanContent processedMessageIds OtherBody =
     (processedMessageIds, None)"

text \<open>
  Deliveries through either path, in arrival order, sharing the one processed-id set; the
  result is the final set and the handler calls made, in order.
\<close>

datatype 'c delivery = ViaWebSocket "'c ws_data" | ViaWebhook "'c webhook_body"

fun receive ::
  "('c \<Rightarrow> string) \<Rightarrow> string list \<Rightarrow> 'c delivery \<Rightarrow> string list \<times> handler_call option" where
  "receive parse ids (ViaWebSocket m) = ws_receive parse ids m"
| "receive parse ids (ViaWebhook b) = webhook_receive parse ids b"

fun receiveAll ::
  "('c \<Rightarrow> string) \<Rightarrow> string list \<Rightarrow> 'c delivery list \<Rightarrow> string list \<times> handler_call list" where
  "receiveAll parse ids [] = (ids, [])"
| "receiveAll parse ids (d # ds) =
     (let (ids', call) = receive parse ids d;
          (ids'', calls) = receiveAll parse ids' ds
      in (ids'', (case call of None \<Rightarrow> calls | Some c \<Rightarrow> c # calls)))"

text \<open>
  Vocabulary for the statements: the message id that a delivery submits to the dedup check
  (none when the webhook guard on message id and chat id stops it before), and the raw
  content it would parse.
\<close>

fun dedup_id :: "'c delivery \<Rightarrow> string option" where
  "dedup_id (ViaWebSocket m) = Some (ws_message_id m)"
| "dedup_id (ViaWebhook (MessageReceive e)) =
     (case (ev_message_id e, ev_chat_id e) of
        (Some messageId, Some chatId) \<Rightarrow>
          if truthy messageId \<and> truthy chatId then Some messageId else None
      | _ \<Rightarrow> None)"
| "dedup_id (ViaWebhook _) = None"

fun raw_content :: "'c delivery \<Rightarrow> 'c option" where
  "raw_content (ViaWebSocket m) = Some (ws_content m)"
| "raw_content (ViaWebhook (MessageReceive e)) = Some (ev_content e)"
| "raw_content (ViaWebhook _) = None"


subsection \<open>Adapters: \<open>sendMessage\<close>\<close>

text \<open>
  The outcome of an awaited call on an external service (the Graph API, the Feishu API, the
  backend): the promise resolves with a value or rejects.  What an adapter's
  \<open>sendMessage\<close> hands back to its caller is a JavaScript value: \<open>undefined\<close>,
  \<open>null\<close> or a string.
\<close>

datatype 'a awaited = Resolves 'a | Rejects

datatype jsval = Undefined | Null | Str string

definition truthy_opt :: "string option \<Rightarrow> bool" where
  "truthy_opt v = (case v of None \<Rightarrow> False | Some s \<Rightarrow> truthy s)"

text \<open>
  \<open>TeamsClient.sendMessage\<close> (teamsClient.ts, lines 139 to 158).  \<open>post chatId body\<close> is
  the awaited \<open>this.axios.post\<close> on the chat's messages, resolving with \<open>res.data?.id\<close>
  (\<open>None\<close> when absent); it rejects as well when the token interceptor throws.
  \<open>formatMessageBody\<close> rewrites markdown to HTML with regular expressions and is a
  parameter.  The function returns \<open>messageId || null\<close>, and \<open>null\<close> from the catch
  block.
\<close>

definition Teams_sendMessage ::
  "(string \<Rightarrow> string \<Rightarrow> string option awaited) \<Rightarrow> (string \<Rightarrow> string) \<Rightarrow> string \<Rightarrow> string \<Rightarrow> jsval" where
  "Teams_sendMessage post formatMessageBody chatId text =
     (let body = formatMessageBody text in
      case post chatId body of
        Resolves messageId \<Rightarrow>
          (case messageId of
             Some m \<Rightarrow> if truthy m then Str m else Null
           | None \<Rightarrow> Null)
      | Rejects \<Rightarrow> Null)"

text \<open>
  \<open>FeishuClient.sendMessage\<close> (lines 90 to 104 of the Feishu client).
  \<open>create chatId text\<close> is the awaited \<open>this.apiClient.im.message.create\<close>, resolving
  with the id of the created message if the response carries one.  Neither the try block nor
  the catch block has a return statement.
\<close>

definition Feishu_sendMessage ::
  "(string \<Rightarrow> string \<Rightarrow> string option awaited) \<Rightarrow> string \<Rightarrow> string \<Rightarrow> jsval" where
  "Feishu_sendMessage create chatId text =
     (case create chatId text of
        Resolves created \<Rightarrow> Undefined
      | Rejects \<Rightarrow> Undefined)"

subsection \<open>Stream aggregation: \<open>handleStreamUpdate\<close>\<close>

datatype part_type = PartText | PartReasoning | PartTool | PartOther

record Part =
  part_type :: part_type
  part_text :: "string option"

record MessageBuffer =
  feishuMsgId :: "string option"
  fullContent :: string
  buffer_type :: part_type
  lastUpdateTime :: int
  isFinished :: bool

datatype outbound = SendMessage string string | EditMessage string string string

definition UPDATE_INTERVAL :: int where
  "UPDATE_INTERVAL = 800"

text \<open>
  The marker put before reasoning content (a thinking-face emoji, three Chinese characters,
  three dots and two line feeds), written as the bytes of its UTF-8 encoding.
\<close>

definition reasoning_marker :: string where
  "reasoning_marker =
     [CHR 0xF0, CHR 0x9F, CHR 0xA4, CHR 0x94, CHR 0x20,
      CHR 0xE6, CHR 0x80, CHR 0x9D, CHR 0xE8, CHR 0x80, CHR 0x83, CHR 0xE4, CHR 0xB8, CHR 0xAD,
      CHR 0x2E, CHR 0x2E, CHR 0x2E, CHR 0x0A, CHR 0x0A]"

text \<open>
  \<open>handleStreamUpdate\<close> (lines 349 to 407 of the handler), block by block.  The
  module-level map \<open>messageBuffers\<close> is passed in and returned together with the outbound
  call made, if any.  \<open>now\<close> is \<open>Date.now()\<close>.  \<open>sendMessage chatId text\<close> is the
  awaited \<open>feishu.sendMessage\<close>; the result of \<open>feishu.editMessage\<close> is not used, and
  a rejection of either is caught and logged.  \<open>delta\<close> is \<open>None\<close> when the event
  carries no string delta, \<open>part_text\<close> is \<open>None\<close> when \<open>part.text\<close> is not a string.
\<close>

text \<open>Lines 360 to 370: the buffer of the message, created on its first fragment.\<close>

definition getOrInitBuffer :: "(string \<rightharpoonup> MessageBuffer) \<Rightarrow> string \<Rightarrow> Part \<Rightarrow> MessageBuffer" where
  "getOrInitBuffer messageBuffers msgId part =
     (case messageBuffers msgId of
        Some buffer \<Rightarrow> buffer
      | None \<Rightarrow> \<lparr>feishuMsgId = None, fullContent = [], buffer_type = part_type part,
                  lastUpdateTime = 0, isFinished = False\<rparr>)"

text \<open>Lines 373 to 382: a non-empty delta is appended, otherwise a snapshot may replace.\<close>

definition appendOrReplace :: "MessageBuffer \<Rightarrow> Part \<Rightarrow> string option \<Rightarrow> MessageBuffer" where
  "appendOrReplace buffer part delta =
     (if (case delta of Some d \<Rightarrow> length d > 0 | None \<Rightarrow> False)
      then buffer\<lparr>fullContent := fullContent buffer @ (case delta of Some d \<Rightarrow> d | None \<Rightarrow> [])\<rparr>
      else (case part_text part of
              Some t \<Rightarrow>
                if length t \<ge> length (fullContent buffer) then buffer\<lparr>fullContent := t\<rparr>
                else buffer
            | None \<Rightarrow> buffer))"

text \<open>Line 386.\<close>

definition shouldUpdate :: "int \<Rightarrow> MessageBuffer \<Rightarrow> bool" where
  "shouldUpdate now buffer =
     (\<not> truthy_opt (feishuMsgId buffer) \<or> now - lastUpdateTime buffer > UPDATE_INTERVAL)"

text \<open>Lines 389 to 405: the body of \<open>if (shouldUpdate && buffer.fullContent)\<close>.\<close>

definition flush ::
  "(string \<Rightarrow> string \<Rightarrow> jsval awaited) \<Rightarrow> int \<Rightarrow> string \<Rightarrow> MessageBuffer \<Rightarrow> MessageBuffer \<times> outbound" where
  "flush sendMessage now chatId buffer0 =
     (let buffer = buffer0\<lparr>lastUpdateTime := now\<rparr>;
          displayContent = (if buffer_type buffer = PartReasoning
                            then reasoning_marker @ fullContent buffer
                            else fullContent buffer)
      in if \<not> truthy_opt (feishuMsgId buffer) then
           (case sendMessage chatId displayContent of
              Resolves sentId \<Rightarrow>
                (case sentId of
                   Str s \<Rightarrow> if truthy s then buffer\<lparr>feishuMsgId := Some s\<rparr> else buffer
                 | _ \<Rightarrow> buffer,
                 SendMessage chatId displayContent)
            | Rejects \<Rightarrow> (buffer, SendMessage chatId displayContent))
         else (buffer, EditMessage chatId (or_empty (feishuMsgId buffer)) displayContent))"

definition handleStreamUpdate ::
  "(string \<Rightarrow> string \<Rightarrow> jsval awaited) \<Rightarrow> int \<Rightarrow> (string \<rightharpoonup> MessageBuffer) \<Rightarrow>
   string \<Rightarrow> string \<Rightarrow> Part \<Rightarrow> string option \<Rightarrow> (string \<rightharpoonup> MessageBuffer) \<times> outbound option" where
  "handleStreamUpdate sendMessage now messageBuffers chatId msgId part delta =
     (if \<not> truthy msgId then (messageBuffers, None)
      else if part_type part \<noteq> PartText \<and> part_type part \<noteq> PartReasoning
      then (messageBuffers, None)
      else
        let buffer = appendOrReplace (getOrInitBuffer messageBuffers msgId part) part delta
        in if shouldUpdate now buffer \<and> truthy (fullContent buffer) then
             let (buffer', call) = flush sendMessage now chatId buffer
             in (messageBuffers(msgId \<mapsto> buffer'), Some call)
           else (messageBuffers(msgId \<mapsto> buffer), None))"

text \<open>
  The fragments of one backend message, in stream order: each is the clock reading at its
  arrival, the part and the delta.  The listener awaits \<open>handleStreamUpdate\<close> for one
  event before it reads the next.
\<close>

fun streamUpdates ::
  "(string \<Rightarrow> string \<Rightarrow> jsval awaited) \<Rightarrow> (string \<rightharpoonup> MessageBuffer) \<Rightarrow> string \<Rightarrow> string \<Rightarrow>
   (int \<times> Part \<times> string option) list \<Rightarrow> (string \<rightharpoonup> MessageBuffer) \<times> outbound list" where
  "streamUpdates sendMessage messageBuffers chatId msgId [] = (messageBuffers, [])"
| "streamUpdates sendMessage messageBuffers chatId msgId ((now, part, delta) # rest) =
     (let (buffers', call) = handleStreamUpdate sendMessage now messageBuffers chatId msgId part delta;
          (buffers'', calls) = streamUpdates sendMessage buffers' chatId msgId rest
      in (buffers'', (case call of None \<Rightarrow> calls | Some c \<Rightarrow> c # calls)))"

text \<open>
  What is held for a backend message before a fragment arrives: the accumulated content
  (empty before the first fragment), the platform message id recorded, and the time of the
  last flush (\<open>0\<close> before the first).
\<close>

definition accumulated :: "(string \<rightharpoonup> MessageBuffer) \<Rightarrow> string \<Rightarrow> string" where
  "accumulated messageBuffers msgId =
     (case messageBuffers msgId of None \<Rightarrow> [] | Some b \<Rightarrow> fullContent b)"

definition recordedId :: "(string \<rightharpoonup> MessageBuffer) \<Rightarrow> string \<Rightarrow> string option" where
  "recordedId messageBuffers msgId =
     (case messageBuffers msgId of None \<Rightarrow> None | Some b \<Rightarrow> feishuMsgId b)"

definition lastFlush :: "(string \<rightharpoonup> MessageBuffer) \<Rightarrow> string \<Rightarrow> int" where
  "lastFlush messageBuffers msgId =
     (case messageBuffers msgId of None \<Rightarrow> 0 | Some b \<Rightarrow> lastUpdateTime b)"

subsection \<open>Teams token lifecycle\<close>

text \<open>
  \<open>parseTeamsConfig\<close> (index.teams.ts, lines 21 to 50, and the same function of
  index.ts): the options of the agent node, each a string or absent, and the two checks that
  throw.  The polling interval and the target user do not bear on the token.
\<close>

record TeamsOptions =
  opt_client_id :: "string option"
  opt_client_secret :: "string option"
  opt_tenant_id :: "string option"
  opt_access_token :: "string option"
  opt_refresh_token :: "string option"

record TeamsConfig =
  client_id :: "string option"
  client_secret :: "string option"
  tenant_id :: "string option"
  access_token :: "string option"
  refresh_token :: "string option"

datatype config_error = MissingClientId | MissingToken

definition parseTeamsConfig :: "TeamsOptions \<Rightarrow> config_error + TeamsConfig" where
  "parseTeamsConfig options =
     (if \<not> truthy_opt (opt_client_id options) then Inl MissingClientId
      else if \<not> truthy_opt (opt_access_token options) \<and> \<not> truthy_opt (opt_refresh_token options)
      then Inl MissingToken
      else Inr \<lparr>client_id = opt_client_id options,
                client_secret = opt_client_secret options,
                tenant_id = (if truthy_opt (opt_tenant_id options) then opt_tenant_id options
                             else Some ''common''),
                access_token = opt_access_token options,
                refresh_token = opt_refresh_token options\<rparr>)"

text \<open>
  The fields of \<open>TeamsClient\<close> that the token code reads and writes, and the constructor
  (teamsClient.ts, lines 13 to 38).  \<open>accessToken\<close> is a string in the constructor and
  whatever \<open>res.data.access_token\<close> is after a refresh, \<open>None\<close> standing for
  \<open>undefined\<close>.
\<close>

record TeamsClient =
  config :: TeamsConfig
  accessToken :: "string option"
  tokenExpiresAt :: int
  refreshToken :: "string option"

definition newTeamsClient :: "TeamsConfig \<Rightarrow> TeamsClient" where
  "newTeamsClient cfg =
     \<lparr>config = cfg,
      accessToken = Some (or_empty (access_token cfg)),
      tokenExpiresAt = 0,
      refreshToken = refresh_token cfg\<rparr>"

text \<open>
  \<open>refreshAccessToken\<close> (lines 58 to 91) runs in two parts around its one \<open>await\<close>:
  up to the \<open>axios.post\<close> on the token endpoint, which sends the request, and from the
  settled response on.  \<open>now\<close> in the second part is \<open>Date.now()\<close> at that moment.
\<close>

record token_request =
  req_tenant :: string
  req_client_id :: string
  req_refresh_token :: string
  req_client_secret :: "string option"

record token_response =
  res_access_token :: "string option"
  res_refresh_token :: "string option"
  res_expires_in :: "int option"

datatype token_error = NoAccessToken | CannotRefresh | TokenRefreshFailed

datatype token_progress = Returned | Threw token_error | Awaiting token_request

definition token_params :: "TeamsClient \<Rightarrow> token_request" where
  "token_params this =
     \<lparr>req_tenant = (if truthy_opt (tenant_id (config this))
                     then or_empty (tenant_id (config this)) else ''common''),
      req_client_id = or_empty (client_id (config this)),
      req_refresh_token = or_empty (refreshToken this),
      req_client_secret = (if truthy_opt (client_secret (config this))
                           then client_secret (config this) else None)\<rparr>"

definition refreshAccessToken_request :: "TeamsClient \<Rightarrow> token_progress" where
  "refreshAccessToken_request this =
     (if \<not> truthy_opt (refreshToken this) \<or> \<not> truthy_opt (client_id (config this))
      then Threw CannotRefresh
      else Awaiting (token_params this))"

definition refreshAccessToken_settle ::
  "token_response awaited \<Rightarrow> int \<Rightarrow> TeamsClient \<Rightarrow> TeamsClient \<times> token_error option" where
  "refreshAccessToken_settle response now this =
     (case response of
        Resolves res \<Rightarrow>
          (let expiresIn = (case res_expires_in res of
                              Some n \<Rightarrow> if n \<noteq> 0 then n else 3600
                            | None \<Rightarrow> 3600)
           in (this\<lparr>accessToken := res_access_token res,
                     refreshToken := (if truthy_opt (res_refresh_token res)
                                      then res_refresh_token res else refreshToken this),
                     tokenExpiresAt := now + expiresIn * 1000\<rparr>,
               None))
      | Rejects \<Rightarrow> (this, Some TokenRefreshFailed))"

text \<open>
  \<open>ensureValidToken\<close> (lines 40 to 56) up to its \<open>await\<close>: it returns, throws, or has
  sent a refresh request and waits for it.  \<open>now\<close> is \<open>Date.now()\<close>.
\<close>

definition ensureValidToken_request :: "int \<Rightarrow> TeamsClient \<Rightarrow> token_progress" where
  "ensureValidToken_request now this =
     (if truthy_opt (accessToken this) \<and> now < tokenExpiresAt this - 60000 then Returned
      else if truthy_opt (refreshToken this) \<and> truthy_opt (client_id (config this))
      then refreshAccessToken_request this
      else if \<not> truthy_opt (accessToken this) then Threw NoAccessToken
      else Returned)"

text \<open>
  A refresh credential is configured when the client has what line 47 asks for: a refresh
  token and the client id it is presented with.
\<close>

definition refreshConfigured :: "TeamsClient \<Rightarrow> bool" where
  "refreshConfigured this =
     (truthy_opt (refreshToken this) \<and> truthy_opt (client_id (config this)))"

text \<open>
  One call of \<open>ensureValidToken\<close> run to its end with nothing interleaved: \<open>post\<close>
  answers the refresh request, \<open>later\<close> is the clock when the answer arrives.  The result
  is the client afterwards, the error thrown if any, and the number of refresh requests
  sent.
\<close>

definition ensureValidToken ::
  "(token_request \<Rightarrow> token_response awaited) \<Rightarrow> int \<Rightarrow> int \<Rightarrow> TeamsClient \<Rightarrow>
   TeamsClient \<times> token_error option \<times> nat" where
  "ensureValidToken post now later this =
     (case ensureValidToken_request now this of
        Returned \<Rightarrow> (this, None, 0)
      | Threw e \<Rightarrow> (this, Some e, 0)
      | Awaiting request \<Rightarrow>
          (let (this', failure) = refreshAccessToken_settle (post request) later this
           in (this', failure, 1)))"

text \<open>
  Calls of \<open>ensureValidToken\<close> interleaved on the single thread: a caller invokes it at
  some clock reading and runs up to the \<open>await\<close>; the oldest request in flight settles
  and its caller's continuation runs.  The run keeps the client, the requests in flight
  and the requests sent so far.
\<close>

datatype token_event = Invoke int | Settle "token_response awaited" int

record token_run =
  client :: TeamsClient
  in_flight :: "token_request list"
  sent :: "token_request list"

fun token_step :: "token_run \<Rightarrow> token_event \<Rightarrow> token_run" where
  "token_step r (Invoke now) =
     (case ensureValidToken_request now (client r) of
        Awaiting request \<Rightarrow> r\<lparr>in_flight := in_flight r @ [request], sent := sent r @ [request]\<rparr>
      | _ \<Rightarrow> r)"
| "token_step r (Settle response now) =
     (case in_flight r of
        [] \<Rightarrow> r
      | request # rest \<Rightarrow>
          r\<lparr>client := fst (refreshAccessToken_settle response now (client r)),
            in_flight := rest\<rparr>)"

definition token_steps :: "token_run \<Rightarrow> token_event list \<Rightarrow> token_run" where
  "token_steps r events = foldl token_step r events"

subsection \<open>Session routing: the streaming handler\<close>

text \<open>
  \<open>createMessageHandler\<close> of the streaming handler (lines 412 to 461).  The module-level
  maps \<open>sessionCache\<close> and \<open>sessionToFeishuMap\<close> are the state.  The backend and the
  Feishu client are the environment of one invocation: \<open>createSession title\<close> and
  \<open>promptSession sessionId text\<close> are the awaited backend calls, which succeed (the
  first with \<open>res.data?.id\<close>) or throw an error with a status and a message;
  \<open>addReaction messageId\<close> is the reaction id or \<open>null\<close>, the Feishu client catching its
  own failures, as it does in \<open>sendMessage\<close> and \<open>removeReaction\<close>; \<open>clock\<close> is
  \<open>new Date().toLocaleTimeString()\<close>; \<open>isPing text\<close> is the test
  \<open>text.trim().toLowerCase() === 'ping'\<close>.  The calls made are recorded in order.
\<close>

datatype 'a backend = Succeeds 'a | Fails (err_status: "int option") (err_message: string)

record SessionContext =
  ctx_chatId :: string
  ctx_senderId :: string

record bridge_state =
  sessionCache :: "string \<rightharpoonup> string"
  sessionToFeishuMap :: "string \<rightharpoonup> SessionContext"

record bridge_env =
  isPing :: "string \<Rightarrow> bool"
  clock :: string
  addReaction :: "string \<Rightarrow> string option"
  createSession :: "string \<Rightarrow> string option backend"
  promptSession :: "string \<Rightarrow> string \<Rightarrow> unit backend"

datatype bridge_action =
    AddReaction string
  | CreateSession string
  | PromptSession string string
  | Send string string
  | RemoveReaction string string

text \<open>
  The fixed texts, non-ASCII characters as the bytes of their UTF-8 encoding: the reply to a
  ping (\<open>Pong!\<close>, a space and a lightning emoji) and the prefix of an error notice (a
  cross mark, a space, \<open>Error:\<close> and a space).
\<close>

definition pong :: string where
  "pong = ''Pong! '' @ [CHR 0xE2, CHR 0x9A, CHR 0xA1, CHR 0xEF, CHR 0xB8, CHR 0x8F]"

definition error_notice :: "string \<Rightarrow> string" where
  "error_notice message = [CHR 0xE2, CHR 0x9D, CHR 0x8C] @ '' Error: '' @ message"

text \<open>\<open>`Chat ${chatId.slice(-4)} [${timeString}]`\<close>: the last four code units of the chat id.\<close>

definition uniqueTitle :: "string \<Rightarrow> string \<Rightarrow> string" where
  "uniqueTitle chatId timeString =
     ''Chat '' @ drop (length chatId - 4) chatId @ '' ['' @ timeString @ '']''"

text \<open>
  Lines 428 to 437: the cached session of the chat, or a new backend session, cached when
  the backend returns an id.  The result is the state, the calls made, the session id (or
  none) and the error thrown by \<open>createSession\<close>, if any.
\<close>

definition resolveSession ::
  "bridge_env \<Rightarrow> bridge_state \<Rightarrow> string \<Rightarrow>
   bridge_state \<times> bridge_action list \<times> string option \<times> (int option \<times> string) option" where
  "resolveSession env st chatId =
     (case (case sessionCache st chatId of
              Some s \<Rightarrow> if truthy s then Some s else None
            | None \<Rightarrow> None) of
        Some s \<Rightarrow> (st, [], Some s, None)
      | None \<Rightarrow>
          (let title = uniqueTitle chatId (clock env) in
           case createSession env title of
             Fails status message \<Rightarrow> (st, [CreateSession title], None, Some (status, message))
           | Succeeds created \<Rightarrow>
               (if truthy_opt created
                then (st\<lparr>sessionCache := (sessionCache st)(chatId \<mapsto> or_empty created)\<rparr>,
                      [CreateSession title], created, None)
                else (st, [CreateSession title], None, None))))"

text \<open>
  Lines 428 to 448, the body of the \<open>try\<close> after the reaction: the state and the calls
  made, and the error thrown, if any.
\<close>

definition resolveAndPrompt ::
  "bridge_env \<Rightarrow> bridge_state \<Rightarrow> string \<Rightarrow> string \<Rightarrow> string \<Rightarrow>
   bridge_state \<times> bridge_action list \<times> (int option \<times> string) option" where
  "resolveAndPrompt env st chatId text senderId =
     (case resolveSession env st chatId of
        (st1, acts1, sessionId, Some e) \<Rightarrow> (st1, acts1, Some e)
      | (st1, acts1, None, None) \<Rightarrow> (st1, acts1, Some (None, ''Failed to init Session''))
      | (st1, acts1, Some s, None) \<Rightarrow>
          (let st2 = st1\<lparr>sessionToFeishuMap :=
                       (sessionToFeishuMap st1)(s \<mapsto> \<lparr>ctx_chatId = chatId,
                                                        ctx_senderId = senderId\<rparr>)\<rparr>
           in case promptSession env s text of
                Succeeds u \<Rightarrow> (st2, acts1 @ [PromptSession s text], None)
              | Fails status message \<Rightarrow>
                  (st2, acts1 @ [PromptSession s text], Some (status, message))))"

definition createMessageHandler ::
  "bridge_env \<Rightarrow> bridge_state \<Rightarrow> string \<Rightarrow> string \<Rightarrow> string \<Rightarrow> string \<Rightarrow>
   bridge_state \<times> bridge_action list" where
  "createMessageHandler env st chatId text messageId senderId =
     (if isPing env text then (st, [Send chatId pong])
      else
        let reactionId = (if truthy messageId then addReaction env messageId else None);
            acts0 = (if truthy messageId then [AddReaction messageId] else []);
            (st1, acts1, thrown) = resolveAndPrompt env st chatId text senderId;
            (st2, acts2) =
              (case thrown of
                 None \<Rightarrow> (st1, [])
               | Some (status, message) \<Rightarrow>
                   ((if status = Some 404
                     then st1\<lparr>sessionCache := (sessionCache st1)(chatId := None)\<rparr> else st1),
                    [Send chatId (error_notice message)]));
            acts3 = (if truthy messageId \<and> truthy_opt reactionId
                     then [RemoveReaction messageId (or_empty reactionId)] else [])
        in (st2, acts0 @ acts1 @ acts2 @ acts3))"

text \<open>
  Reading the calls of one invocation: the session the prompt was submitted to, and the
  number of backend sessions created.
\<close>

fun promptedSession :: "bridge_action list \<Rightarrow> string option" where
  "promptedSession [] = None"
| "promptedSession (PromptSession s t # acts) = Some s"
| "promptedSession (a # acts) = promptedSession acts"

fun sessionsCreated :: "bridge_action list \<Rightarrow> nat" where
  "sessionsCreated [] = 0"
| "sessionsCreated (CreateSession t # acts) = Suc (sessionsCreated acts)"
| "sessionsCreated (a # acts) = sessionsCreated acts"

text \<open>A backend call that threw with status 404.\<close>

definition notFound :: "'a backend \<Rightarrow> bool" where
  "notFound r = (case r of Succeeds v \<Rightarrow> False | Fails status message \<Rightarrow> status = Some 404)"

subsection \<open>Conversation queue: the queued handler\<close>

text \<open>
  The queued \<open>createMessageHandler\<close> (lines 15 to 172 of the polling handler; the later
  handler of the same file has the same lines around another body).  Each invocation that
  is not a ping reads \<open>previousTask = chatQueues.get(chatId) || Promise.resolve()\<close>,
  starts the task \<open>(async () => { await previousTask.catch(() => {}); ... })()\<close>, which
  runs up to that \<open>await\<close>, and stores the task with \<open>chatQueues.set(chatId,
  currentTask)\<close>, all in one turn of the event loop.

  A promise is pending, fulfilled or rejected.  \<open>p.catch(() => {})\<close> is pending while
  \<open>p\<close> is and fulfilled once \<open>p\<close> has settled either way.  \<open>await q\<close> suspends
  while \<open>q\<close> is pending, continues once it is fulfilled and throws once it is
  rejected.
\<close>

datatype promise = Pending | Fulfilled | Rejected

definition catch_swallow :: "promise \<Rightarrow> promise" where
  "catch_swallow p = (case p of Pending \<Rightarrow> Pending | Fulfilled \<Rightarrow> Fulfilled | Rejected \<Rightarrow> Fulfilled)"

datatype awaiting = Suspends | Continues | Throws

definition await :: "promise \<Rightarrow> awaiting" where
  "await q = (case q of Pending \<Rightarrow> Suspends | Fulfilled \<Rightarrow> Continues | Rejected \<Rightarrow> Throws)"

text \<open>
  A task is the promise \<open>currentTask\<close> together with where its async function stands:
  suspended at the first \<open>await\<close>, or past it in the processing body (from
  \<open>Processing message\<close> on), or ended by returning or by throwing.  Tasks are numbered in the order of their
  creation; \<open>previous\<close> is the task read from \<open>chatQueues\<close>, \<open>None\<close> for
  \<open>Promise.resolve()\<close>.
\<close>

datatype phase = Waiting | Processing | Returned_ok | Thrown

record task =
  task_chatId :: string
  task_messageId :: string
  previous :: "nat option"
  phase :: phase

record queue_state =
  chatQueues :: "string \<rightharpoonup> nat"
  tasks :: "task list"

definition task_promise :: "task \<Rightarrow> promise" where
  "task_promise t =
     (case phase t of
        Waiting \<Rightarrow> Pending
      | Processing \<Rightarrow> Pending
      | Returned_ok \<Rightarrow> Fulfilled
      | Thrown \<Rightarrow> Rejected)"

definition previousTask :: "queue_state \<Rightarrow> task \<Rightarrow> promise" where
  "previousTask s t =
     (case previous t of
        None \<Rightarrow> Fulfilled
      | Some j \<Rightarrow> if j < length (tasks s) then task_promise (tasks s ! j) else Pending)"

text \<open>
  What can happen in one turn of the event loop: a message arrives and the handler is
  invoked; the \<open>await\<close> of task \<open>k\<close> is resumed, which happens only when the awaited
  promise has settled; the body of task \<open>k\<close> ends, returning (\<open>True\<close>) or throwing
  (\<open>False\<close>, as when the error notice itself cannot be sent).  A turn that cannot
  happen in the state has no successor.  \<open>is_ping\<close> is the test
  \<open>text.trim().toLowerCase() === 'ping'\<close> of the fast path, which does not touch the
  queue.
\<close>

datatype queue_event = Arrive string string string | Resume nat | Finish nat bool

fun queue_step :: "(string \<Rightarrow> bool) \<Rightarrow> queue_state \<Rightarrow> queue_event \<Rightarrow> queue_state option" where
  "queue_step is_ping s (Arrive chatId text messageId) =
     (if is_ping text then Some s
      else
        let currentTask = \<lparr>task_chatId = chatId, task_messageId = messageId,
                            previous = chatQueues s chatId, phase = Waiting\<rparr>
        in Some \<lparr>chatQueues = (chatQueues s)(chatId \<mapsto> length (tasks s)),
                  tasks = tasks s @ [currentTask]\<rparr>)"
| "queue_step is_ping s (Resume k) =
     (if k < length (tasks s) \<and> phase (tasks s ! k) = Waiting then
        (case await (catch_swallow (previousTask s (tasks s ! k))) of
           Suspends \<Rightarrow> None
         | Continues \<Rightarrow> Some (s\<lparr>tasks := (tasks s)[k := (tasks s ! k)\<lparr>phase := Processing\<rparr>]\<rparr>)
         | Throws \<Rightarrow> Some (s\<lparr>tasks := (tasks s)[k := (tasks s ! k)\<lparr>phase := Thrown\<rparr>]\<rparr>))
      else None)"
| "queue_step is_ping s (Finish k ok) =
     (if k < length (tasks s) \<and> phase (tasks s ! k) = Processing then
        Some (s\<lparr>tasks := (tasks s)[k := (tasks s ! k)\<lparr>phase :=
                (if ok then Returned_ok else Thrown)\<rparr>]\<rparr>)
      else None)"

fun queue_run :: "(string \<Rightarrow> bool) \<Rightarrow> queue_state \<Rightarrow> queue_event list \<Rightarrow> queue_state option" where
  "queue_run is_ping s [] = Some s"
| "queue_run is_ping s (e # es) =
     (case queue_step is_ping s e of None \<Rightarrow> None | Some s' \<Rightarrow> queue_run is_ping s' es)"

definition queue_init :: queue_state where
  "queue_init = \<lparr>chatQueues = Map.empty, tasks = []\<rparr>"

definition task_settled :: "task \<Rightarrow> bool" where
  "task_settled t = (phase t = Returned_ok \<or> phase t = Thrown)"

text \<open>
  Vocabulary for the statements about the queue.  The chain of a conversation:
  \<open>chatQueues\<close> holds the latest task of each conversation, and \<open>previous\<close> of a
  task is the latest earlier task of its conversation.  The order of a conversation: a task
  that has left its first \<open>await\<close> finds every earlier task of its conversation settled.
\<close>

definition chain_inv :: "queue_state \<Rightarrow> bool" where
  "chain_inv s \<longleftrightarrow>
     (\<forall>c j. chatQueues s c = Some j \<longrightarrow>
        j < length (tasks s) \<and> task_chatId (tasks s ! j) = c \<and>
        (\<forall>m < length (tasks s). task_chatId (tasks s ! m) = c \<longrightarrow> m \<le> j)) \<and>
     (\<forall>c. chatQueues s c = None \<longrightarrow>
        (\<forall>m < length (tasks s). task_chatId (tasks s ! m) \<noteq> c)) \<and>
     (\<forall>k < length (tasks s). \<forall>j. previous (tasks s ! k) = Some j \<longrightarrow>
        j < k \<and> task_chatId (tasks s ! j) = task_chatId (tasks s ! k) \<and>
        (\<forall>m < k. task_chatId (tasks s ! m) = task_chatId (tasks s ! k) \<longrightarrow> m \<le> j)) \<and>
     (\<forall>k < length (tasks s). previous (tasks s ! k) = None \<longrightarrow>
        (\<forall>m < k. task_chatId (tasks s ! m) \<noteq> task_chatId (tasks s ! k)))"

definition serial :: "queue_state \<Rightarrow> bool" where
  "serial s \<longleftrightarrow>
     (\<forall>i j. i < j \<and> j < length (tasks s) \<and>
            task_chatId (tasks s ! i) = task_chatId (tasks s ! j) \<and>
            phase (tasks s ! j) \<noteq> Waiting \<longrightarrow> task_settled (tasks s ! i))"

section \<open>Properties\<close>

subsection \<open>Dedup cache\<close>

lemma Teams_isMessageProcessed_seen:
  "x \<in> set s \<Longrightarrow> Teams_isMessageProcessed s x = (True, s)"
  by (simp add: Teams_isMessageProcessed_def set_has_def)

lemma Feishu_isMessageProcessed_seen:
  "x \<in> set s \<Longrightarrow> Feishu_isMessageProcessed s x = (True, s)"
  by (simp add: Feishu_isMessageProcessed_def set_has_def)

lemma Teams_isMessageProcessed_new:
  "x \<notin> set s \<Longrightarrow> length s < 2000 \<Longrightarrow> Teams_isMessageProcessed s x = (False, s @ [x])"
  by (simp add: Teams_isMessageProcessed_def set_has_def set_add_def set_size_def)

lemma Feishu_isMessageProcessed_new:
  "x \<notin> set s \<Longrightarrow> length s < 2000 \<Longrightarrow> Feishu_isMessageProcessed s x = (False, s @ [x])"
  by (simp add: Feishu_isMessageProcessed_def set_has_def set_add_def set_size_def)

lemma removeAll_hd_append:
  assumes "distinct s" "s \<noteq> []" "x \<notin> set s"
  shows "removeAll (hd s) (s @ [x]) = tl s @ [x]"
proof (cases s)
  case Nil
  with assms show ?thesis by simp
next
  case (Cons a as)
  with assms have "a \<notin> set as" "a \<noteq> x" by auto
  with Cons show ?thesis by simp
qed

lemma truthy_or_empty: "(if truthy v then v else []) = v"
  by (simp add: truthy_def)

lemma Teams_isMessageProcessed_evict:
  assumes "distinct s" "x \<notin> set s" "length s \<ge> 2000"
  shows "Teams_isMessageProcessed s x = (False, tl s @ [x])"
proof -
  from assms(3) obtain a as where s: "s = a # as" by (cases s) auto
  have "removeAll a (s @ [x]) = tl s @ [x]"
    using removeAll_hd_append [OF assms(1) _ assms(2)] s by simp
  then show ?thesis
    using assms s
    by (simp add: Teams_isMessageProcessed_def set_has_def set_add_def set_size_def
        set_first_def set_delete_def truthy_or_empty)
qed

lemma Feishu_isMessageProcessed_evict:
  assumes "distinct s" "x \<notin> set s" "length s \<ge> 2000"
  shows "Feishu_isMessageProcessed s x = (False, tl s @ [x])"
proof -
  from assms(3) obtain a as where s: "s = a # as" by (cases s) auto
  have "removeAll a (s @ [x]) = tl s @ [x]"
    using removeAll_hd_append [OF assms(1) _ assms(2)] s by simp
  then show ?thesis
    using assms s
    by (simp add: Feishu_isMessageProcessed_def set_has_def set_add_def set_size_def
        set_first_def set_delete_def)
qed

lemma isMessageProcessed_fst:
  assumes "check = Teams_isMessageProcessed \<or> check = Feishu_isMessageProcessed"
  shows "fst (check s x) = (x \<in> set s)"
  using assms
  by (auto simp: Teams_isMessageProcessed_def Feishu_isMessageProcessed_def set_has_def Let_def
      split: option.splits if_splits)

lemma isMessageProcessed_keeps_new:
  assumes "check = Teams_isMessageProcessed \<or> check = Feishu_isMessageProcessed"
    and "x \<notin> set s"
  shows "x \<in> set (snd (check s x))"
proof (cases s)
  case Nil
  with assms show ?thesis
    by (auto simp: Teams_isMessageProcessed_def Feishu_isMessageProcessed_def set_has_def
        set_add_def set_size_def)
next
  case (Cons a as)
  with assms(2) have "a \<noteq> x" by auto
  with assms Cons show ?thesis
    by (auto simp: Teams_isMessageProcessed_def Feishu_isMessageProcessed_def set_has_def
        set_add_def set_size_def set_first_def set_delete_def truthy_or_empty Let_def)
qed

lemma isMessageProcessed_seen:
  assumes "check = Teams_isMessageProcessed \<or> check = Feishu_isMessageProcessed"
    and "x \<in> set s"
  shows "check s x = (True, s)"
  using assms Teams_isMessageProcessed_seen Feishu_isMessageProcessed_seen by auto

text \<open>
  Claim C5.  For every external message id \<open>X\<close> and both adapters: the first dedup check
  with \<open>X\<close> (one made while \<open>X\<close> is not in the set) returns false and leaves \<open>X\<close>
  in the set; after any further sequence of checks, as long as \<open>X\<close> is still a member
  (it has not been evicted), a check with \<open>X\<close> returns true and leaves the set
  unchanged.
\<close>

theorem dedup_first_false_then_true:
  assumes "check = Teams_isMessageProcessed \<or> check = Feishu_isMessageProcessed"
    and "X \<notin> set s"
  shows "fst (check s X) = False \<and> X \<in> set (snd (check s X)) \<and>
         (let s' = processAll check (snd (check s X)) ys
          in X \<in> set s' \<longrightarrow> check s' X = (True, s'))"
  using assms isMessageProcessed_fst [OF assms(1)] isMessageProcessed_keeps_new [OF assms(1)]
    isMessageProcessed_seen [OF assms(1)]
  by (simp add: Let_def)

theorem dedup_first_false_then_true_witness:
  "''m1'' \<notin> set [''m0''] \<and>
   Teams_isMessageProcessed [''m0''] ''m1'' = (False, [''m0'', ''m1'']) \<and>
   processAll Teams_isMessageProcessed [''m0'', ''m1''] [''m2'', ''m1''] = [''m0'', ''m1'', ''m2''] \<and>
   Teams_isMessageProcessed [''m0'', ''m1'', ''m2''] ''m1'' = (True, [''m0'', ''m1'', ''m2''])"
proof -
  have new: "Teams_isMessageProcessed [''m0''] ''m1'' = (False, [''m0'', ''m1''])"
    using Teams_isMessageProcessed_new [of "''m1''" "[''m0'']"] by simp
  have "Teams_isMessageProcessed [''m0'', ''m1''] ''m2'' = (False, [''m0'', ''m1'', ''m2''])"
    using Teams_isMessageProcessed_new [of "''m2''" "[''m0'', ''m1'']"] by simp
  moreover have "Teams_isMessageProcessed [''m0'', ''m1'', ''m2''] ''m1'' = (True, [''m0'', ''m1'', ''m2''])"
    using Teams_isMessageProcessed_seen [of "''m1''" "[''m0'', ''m1'', ''m2'']"] by simp
  ultimately have run: "processAll Teams_isMessageProcessed [''m0'', ''m1''] [''m2'', ''m1''] = [''m0'', ''m1'', ''m2'']"
    by simp
  from dedup_first_false_then_true [of Teams_isMessageProcessed "''m1''" "[''m0'']" "[''m2'', ''m1'']"]
  show ?thesis using new run by (simp add: Let_def)
qed


lemma isMessageProcessed_step:
  assumes "check = Teams_isMessageProcessed \<or> check = Feishu_isMessageProcessed"
    and "distinct s" and "length s \<le> 2000"
  shows "snd (check s x) =
           (if x \<in> set s then s else if length s < 2000 then s @ [x] else tl s @ [x])"
proof -
  consider "x \<in> set s" | "x \<notin> set s" "length s < 2000" | "x \<notin> set s" "length s = 2000"
    using assms(3) by linarith
  then show ?thesis
  proof cases
    case 1
    then show ?thesis using assms(1) isMessageProcessed_seen [OF assms(1)] by simp
  next
    case 2
    then show ?thesis
      using assms(1) Teams_isMessageProcessed_new Feishu_isMessageProcessed_new by auto
  next
    case 3
    then show ?thesis
      using assms(1) Teams_isMessageProcessed_evict [OF assms(2), of x]
        Feishu_isMessageProcessed_evict [OF assms(2), of x] by auto
  qed
qed

lemma isMessageProcessed_inv:
  assumes "check = Teams_isMessageProcessed \<or> check = Feishu_isMessageProcessed"
    and "distinct s" and "length s \<le> 2000"
  shows "distinct (snd (check s x)) \<and> length (snd (check s x)) \<le> 2000"
proof -
  have "distinct (tl s)" using assms(2) by (simp add: distinct_tl)
  moreover have "x \<notin> set s \<Longrightarrow> x \<notin> set (tl s)" by (cases s) auto
  ultimately show ?thesis
    using assms by (simp add: isMessageProcessed_step [OF assms])
qed

lemma processAll_inv:
  assumes "check = Teams_isMessageProcessed \<or> check = Feishu_isMessageProcessed"
  shows "distinct s \<Longrightarrow> length s \<le> 2000 \<Longrightarrow>
         distinct (processAll check s xs) \<and> length (processAll check s xs) \<le> 2000"
proof (induction xs arbitrary: s)
  case Nil
  then show ?case by simp
next
  case (Cons x xs)
  from isMessageProcessed_inv [OF assms Cons.prems, of x]
  show ?case using Cons.IH by simp
qed

text \<open>
  Claim C6.  For both adapters: every set reached from the empty one by dedup checks holds
  at most 2000 entries, and one check on a set within the bound keeps it within the bound;
  a check with a member leaves the set, and so the insertion order, as it is (re-seeing
  an id does not refresh it); a new id is appended, and when the set is full the one entry
  that leaves is the head of the insertion order, the oldest surviving entry.
\<close>

theorem dedup_capacity_fifo:
  assumes "check = Teams_isMessageProcessed \<or> check = Feishu_isMessageProcessed"
  shows "length (processAll check [] xs) \<le> 2000 \<and>
         (distinct s \<and> length s \<le> 2000 \<longrightarrow>
            (let s' = snd (check s x) in
               distinct s' \<and> length s' \<le> 2000 \<and>
               (x \<in> set s \<longrightarrow> s' = s) \<and>
               (x \<notin> set s \<and> length s < 2000 \<longrightarrow> s' = s @ [x]) \<and>
               (x \<notin> set s \<and> length s = 2000 \<longrightarrow> s' = tl s @ [x])))"
proof -
  have "length (processAll check [] xs) \<le> 2000"
    using processAll_inv [OF assms, of "[]" xs] by simp
  moreover have "distinct s \<and> length s \<le> 2000 \<longrightarrow>
            (let s' = snd (check s x) in
               distinct s' \<and> length s' \<le> 2000 \<and>
               (x \<in> set s \<longrightarrow> s' = s) \<and>
               (x \<notin> set s \<and> length s < 2000 \<longrightarrow> s' = s @ [x]) \<and>
               (x \<notin> set s \<and> length s = 2000 \<longrightarrow> s' = tl s @ [x]))"
  proof
    assume inv: "distinct s \<and> length s \<le> 2000"
    then have d: "distinct s" and l: "length s \<le> 2000" by simp_all
    from isMessageProcessed_inv [OF assms d l, of x] isMessageProcessed_step [OF assms d l, of x]
    show "let s' = snd (check s x) in
               distinct s' \<and> length s' \<le> 2000 \<and>
               (x \<in> set s \<longrightarrow> s' = s) \<and>
               (x \<notin> set s \<and> length s < 2000 \<longrightarrow> s' = s @ [x]) \<and>
               (x \<notin> set s \<and> length s = 2000 \<longrightarrow> s' = tl s @ [x])"
      by (simp add: Let_def)
  qed
  ultimately show ?thesis by blast
qed

theorem dedup_capacity_fifo_witness:
  "distinct (map (\<lambda>n. replicate (Suc n) CHR ''m'') [0..<2000]) \<and>
   length (map (\<lambda>n. replicate (Suc n) CHR ''m'') [0..<2000]) = 2000 \<and>
   ''new'' \<notin> set (map (\<lambda>n. replicate (Suc n) CHR ''m'') [0..<2000]) \<and>
   snd (Feishu_isMessageProcessed (map (\<lambda>n. replicate (Suc n) CHR ''m'') [0..<2000]) ''new'') =
     tl (map (\<lambda>n. replicate (Suc n) CHR ''m'') [0..<2000]) @ [''new''] \<and>
   length (snd (Feishu_isMessageProcessed (map (\<lambda>n. replicate (Suc n) CHR ''m'') [0..<2000]) ''new''))
     \<le> 2000 \<and>
   snd (Feishu_isMessageProcessed [''a'', ''b''] ''a'') = [''a'', ''b'']"
proof -
  let ?S = "map (\<lambda>n. replicate (Suc n) CHR ''m'') [0..<2000]"
  have d: "distinct ?S" by (simp add: distinct_map inj_on_def del: replicate_Suc)
  have l: "length ?S = 2000" by simp
  have n: "''new'' \<notin> set ?S"
  proof
    assume "''new'' \<in> set ?S"
    then obtain k where "''new'' = replicate (Suc k) CHR ''m''" by auto
    then have "CHR ''n'' = CHR ''m''" by simp
    then show False by simp
  qed
  have small: "distinct [''a'', ''b''] \<and> length [''a'', ''b''] \<le> 2000" by simp
  from dedup_capacity_fifo [of Feishu_isMessageProcessed "[]" ?S "''new''"]
    dedup_capacity_fifo [of Feishu_isMessageProcessed "[]" "[''a'', ''b'']" "''a''"]
  show ?thesis using d l n small by (simp add: Let_def del: replicate_Suc upt_Suc)
qed

subsection \<open>Feishu receive paths\<close>

lemma receive_cache:
  "dedup_id d = Some X \<Longrightarrow> fst (receive parse ids d) = snd (Feishu_isMessageProcessed ids X)"
  apply (cases d)
  subgoal for m
    by (auto simp: ws_receive_def Let_def split: prod.splits)
  subgoal for b
    by (cases b) (auto simp: Let_def split: prod.splits if_splits option.splits)
  done

lemma receive_cache_none:
  "dedup_id d = None \<Longrightarrow> receive parse ids d = (ids, None)"
  apply (cases d)
  subgoal by simp
  subgoal for b by (cases b) (auto simp: Let_def split: option.splits if_splits)
  done

lemma receive_empty_text:
  "dedup_id d = Some X \<Longrightarrow> raw_content d = Some c \<Longrightarrow> parse c = [] \<Longrightarrow>
   snd (receive parse ids d) = None"
  apply (cases d)
  subgoal for m
    by (auto simp: ws_receive_def Let_def truthy_def split: prod.splits)
  subgoal for b
    by (cases b) (auto simp: Let_def truthy_def split: prod.splits if_splits option.splits)
  done

lemma receive_seen:
  "dedup_id d = Some X \<Longrightarrow> X \<in> set ids \<Longrightarrow> receive parse ids d = (ids, None)"
  apply (cases d)
  subgoal for m
    by (auto simp: ws_receive_def Let_def Feishu_isMessageProcessed_seen)
  subgoal for b
    by (cases b) (auto simp: Let_def Feishu_isMessageProcessed_seen split: if_splits option.splits)
  done

lemma receive_call_id:
  "receive parse ids d = (ids', Some c) \<Longrightarrow> dedup_id d = Some (call_messageId c)"
  apply (cases d)
  subgoal for m
    by (auto simp: ws_receive_def Let_def split: prod.splits if_splits)
  subgoal for b
    by (cases b) (auto simp: Let_def split: prod.splits if_splits option.splits)
  done

lemma Feishu_step:
  assumes "distinct s" and "length s \<le> 2000"
  shows "snd (Feishu_isMessageProcessed s x) =
           (if x \<in> set s then s else if length s < 2000 then s @ [x] else tl s @ [x])"
  using isMessageProcessed_step [of Feishu_isMessageProcessed s x] assms by simp

lemma Feishu_survives:
  assumes "distinct ids" and "length ids \<le> 2000" and "ids = pre @ X # post"
    and "length post < 1999"
  shows "\<exists>pre' post'. snd (Feishu_isMessageProcessed ids y) = pre' @ X # post' \<and>
           length post' \<le> Suc (length post)"
proof -
  consider "y \<in> set ids" | "y \<notin> set ids" "length ids < 2000" | "y \<notin> set ids" "length ids = 2000"
    using assms(2) by linarith
  then show ?thesis
  proof cases
    case 1
    then have "snd (Feishu_isMessageProcessed ids y) = pre @ X # post"
      using Feishu_step [OF assms(1,2)] assms(3) by simp
    then show ?thesis by fastforce
  next
    case 2
    then have "snd (Feishu_isMessageProcessed ids y) = pre @ X # (post @ [y])"
      using Feishu_step [OF assms(1,2)] assms(3) by simp
    then show ?thesis by fastforce
  next
    case 3
    with assms(3,4) have "pre \<noteq> []" by auto
    then have "tl ids = tl pre @ X # post" using assms(3) by simp
    with 3 have "snd (Feishu_isMessageProcessed ids y) = tl pre @ X # (post @ [y])"
      using Feishu_step [OF assms(1,2)] by simp
    then show ?thesis by fastforce
  qed
qed

lemma receive_no_call_while_cached:
  assumes "X \<in> set ids" and "receive parse ids d = (ids', Some c)"
  shows "call_messageId c \<noteq> X"
proof
  assume "call_messageId c = X"
  with receive_call_id [OF assms(2)] have "dedup_id d = Some X" by simp
  from receive_seen [OF this assms(1), of parse] assms(2) show False by simp
qed

lemma receiveAll_no_call:
  assumes "distinct ids" and "length ids \<le> 2000" and "ids = pre @ X # post"
    and "length post + length ds \<le> 1999"
  shows "\<forall>c \<in> set (snd (receiveAll parse ids ds)). call_messageId c \<noteq> X"
  using assms
proof (induction ds arbitrary: ids pre post)
  case Nil
  then show ?case by simp
next
  case (Cons d ds)
  obtain ids' call where r: "receive parse ids d = (ids', call)" by (cases "receive parse ids d")
  have mem: "X \<in> set ids" using Cons.prems(3) by simp
  have lp: "length post < 1999" using Cons.prems(4) by simp
  have inv': "distinct ids' \<and> length ids' \<le> 2000 \<and>
              (\<exists>pre' post'. ids' = pre' @ X # post' \<and> length post' \<le> Suc (length post))"
  proof (cases "dedup_id d")
    case None
    from receive_cache_none [OF this, of parse ids] r have "ids' = ids" by simp
    with Cons.prems show ?thesis by fastforce
  next
    case (Some Y)
    from receive_cache [OF this, of parse ids] r
    have eq: "ids' = snd (Feishu_isMessageProcessed ids Y)" by simp
    from isMessageProcessed_inv [of Feishu_isMessageProcessed ids Y] Cons.prems(1,2)
    have "distinct ids' \<and> length ids' \<le> 2000" using eq by simp
    moreover from Feishu_survives [OF Cons.prems(1,2,3) lp, of Y]
    have "\<exists>pre' post'. ids' = pre' @ X # post' \<and> length post' \<le> Suc (length post)"
      using eq by simp
    ultimately show ?thesis by simp
  qed
  then obtain pre' post' where ids': "ids' = pre' @ X # post'"
    and lp': "length post' \<le> Suc (length post)" by blast
  have "length post' + length ds \<le> 1999" using lp' Cons.prems(4) by simp
  with Cons.IH [of ids' pre' post'] inv' ids'
  have rest: "\<forall>c \<in> set (snd (receiveAll parse ids' ds)). call_messageId c \<noteq> X" by simp
  have this_call: "\<And>c. call = Some c \<Longrightarrow> call_messageId c \<noteq> X"
    using receive_no_call_while_cached [OF mem] r by simp
  show ?case
    using r rest this_call by (auto simp: Let_def split: prod.splits option.splits)
qed

text \<open>
  Claim C10.  In both Feishu receive paths a delivery that gets as far as the dedup check
  with message id \<open>X\<close> leaves the processed-id set exactly as the dedup check alone
  leaves it, whatever the content parses to: the id is marked before the content is
  parsed.  So \<open>X\<close> is in the set afterwards; a delivery whose content parses to the empty
  text makes no handler call; any later delivery with id \<open>X\<close>, through either path and
  with any content, is discarded without a handler call and without a change to the set
  while \<open>X\<close> is in the set; and after a first delivery of \<open>X\<close>, no handler call for
  \<open>X\<close> is made during the next 1999 deliveries, which cannot evict it.
\<close>

theorem feishu_marked_before_parse:
  assumes "dedup_id d = Some X"
  shows "fst (receive parse ids d) = snd (Feishu_isMessageProcessed ids X) \<and>
         X \<in> set (fst (receive parse ids d)) \<and>
         (raw_content d = Some c \<and> parse c = [] \<longrightarrow> snd (receive parse ids d) = None) \<and>
         (X \<in> set ids' \<and> dedup_id d' = Some X \<longrightarrow> receive parse' ids' d' = (ids', None)) \<and>
         (distinct ids \<and> length ids \<le> 2000 \<and> X \<notin> set ids \<and> length ds \<le> 1999 \<longrightarrow>
            (\<forall>call \<in> set (snd (receiveAll parse' (fst (receive parse ids d)) ds)).
               call_messageId call \<noteq> X))"
proof -
  have cache: "fst (receive parse ids d) = snd (Feishu_isMessageProcessed ids X)"
    by (rule receive_cache [OF assms])
  have member: "X \<in> set (snd (Feishu_isMessageProcessed ids X))"
  proof (cases "X \<in> set ids")
    case True
    then show ?thesis by (simp add: Feishu_isMessageProcessed_seen)
  next
    case False
    then show ?thesis using isMessageProcessed_keeps_new [of Feishu_isMessageProcessed X ids] by simp
  qed
  have dropped: "raw_content d = Some c \<and> parse c = [] \<longrightarrow> snd (receive parse ids d) = None"
    using receive_empty_text [OF assms] by blast
  have redelivery: "X \<in> set ids' \<and> dedup_id d' = Some X \<longrightarrow> receive parse' ids' d' = (ids', None)"
    using receive_seen by blast
  have window: "distinct ids \<and> length ids \<le> 2000 \<and> X \<notin> set ids \<and> length ds \<le> 1999 \<longrightarrow>
            (\<forall>call \<in> set (snd (receiveAll parse' (fst (receive parse ids d)) ds)).
               call_messageId call \<noteq> X)"
  proof
    assume h: "distinct ids \<and> length ids \<le> 2000 \<and> X \<notin> set ids \<and> length ds \<le> 1999"
    let ?ids = "snd (Feishu_isMessageProcessed ids X)"
    from h have inv: "distinct ?ids \<and> length ?ids \<le> 2000"
      using isMessageProcessed_inv [of Feishu_isMessageProcessed ids X] by simp
    from h have "?ids = (if length ids < 2000 then ids else tl ids) @ X # []"
      using Feishu_step [of ids X] by simp
    from receiveAll_no_call [OF _ _ this, of ds parse'] inv h
    show "\<forall>call \<in> set (snd (receiveAll parse' (fst (receive parse ids d)) ds)).
               call_messageId call \<noteq> X"
      using cache by simp
  qed
  from cache member dropped redelivery window show ?thesis by simp
qed

theorem feishu_marked_before_parse_witness:
  "dedup_id (ViaWebSocket \<lparr>ws_message_id = ''om_1'', ws_chat_id = ''oc_1'', ws_content = [],
      ws_sender_open_id = Some ''ou_1''\<rparr>) = Some ''om_1'' \<and>
   receive (\<lambda>c. c) [] (ViaWebSocket \<lparr>ws_message_id = ''om_1'', ws_chat_id = ''oc_1'',
      ws_content = [], ws_sender_open_id = Some ''ou_1''\<rparr>) = ([''om_1''], None) \<and>
   receive (\<lambda>c. c) [''om_1''] (ViaWebhook (MessageReceive \<lparr>ev_message_id = Some ''om_1'',
      ev_chat_id = Some ''oc_1'', ev_content = ''hello'', ev_sender_open_id = None\<rparr>))
     = ([''om_1''], None) \<and>
   ''om_1'' \<notin> set (map call_messageId (snd (receiveAll (\<lambda>c. c) [''om_1'']
       [ViaWebhook (MessageReceive \<lparr>ev_message_id = Some ''om_1'',
          ev_chat_id = Some ''oc_1'', ev_content = ''hello'', ev_sender_open_id = None\<rparr>),
        ViaWebSocket \<lparr>ws_message_id = ''om_2'', ws_chat_id = ''oc_1'', ws_content = ''hi'',
          ws_sender_open_id = Some ''ou_1''\<rparr>])))"
proof -
  let ?d = "ViaWebSocket \<lparr>ws_message_id = ''om_1'', ws_chat_id = ''oc_1'', ws_content = [],
      ws_sender_open_id = Some ''ou_1''\<rparr>"
  let ?d' = "ViaWebhook (MessageReceive \<lparr>ev_message_id = Some ''om_1'',
      ev_chat_id = Some ''oc_1'', ev_content = ''hello'', ev_sender_open_id = None\<rparr>)"
  let ?d2 = "ViaWebSocket \<lparr>ws_message_id = ''om_2'', ws_chat_id = ''oc_1'', ws_content = ''hi'',
          ws_sender_open_id = Some ''ou_1''\<rparr>"
  have id: "dedup_id ?d = Some ''om_1''" by simp
  have id': "dedup_id ?d' = Some ''om_1''" by (simp add: truthy_def)
  have r: "receive (\<lambda>c. c) [] ?d = ([''om_1''], None)"
    by (simp add: ws_receive_def Feishu_isMessageProcessed_def set_has_def set_add_def
        set_size_def truthy_def or_empty_def)
  have h: "distinct ([]::string list) \<and> length ([]::string list) \<le> 2000 \<and>
           ''om_1'' \<notin> set [] \<and> length [?d', ?d2] \<le> 1999" by simp
  have m: "''om_1'' \<in> set [''om_1'']" by simp
  note T = feishu_marked_before_parse [OF id,
      of "\<lambda>c. c" "[]" "[]" "[''om_1'']" ?d' "\<lambda>c. c" "[?d', ?d2]", unfolded r fst_conv snd_conv]
  from T id' h m have "\<forall>call \<in> set (snd (receiveAll (\<lambda>c. c) [''om_1''] [?d', ?d2])).
      call_messageId call \<noteq> ''om_1''" by blast
  then have "''om_1'' \<notin> set (map call_messageId (snd (receiveAll (\<lambda>c. c) [''om_1''] [?d', ?d2])))"
    by (auto simp del: receiveAll.simps)
  with T id id' r h m show ?thesis by blast
qed

subsection \<open>Stream aggregation\<close>

lemma fullContent_flush: "fullContent (fst (flush send now chatId b)) = fullContent b"
  by (simp add: flush_def Let_def split: option.splits awaited.splits jsval.splits)

lemma fullContent_getOrInit:
  "fullContent (getOrInitBuffer bufs msgId part) = accumulated bufs msgId"
  by (simp add: getOrInitBuffer_def accumulated_def split: option.splits)

lemma fullContent_appendOrReplace:
  "fullContent (appendOrReplace b part delta) =
           (case delta of
              Some d \<Rightarrow>
                if d \<noteq> [] then fullContent b @ d
                else (case part_text part of
                        Some t \<Rightarrow> if length t \<ge> length (fullContent b) then t
                                  else fullContent b
                      | None \<Rightarrow> fullContent b)
            | None \<Rightarrow>
                (case part_text part of
                   Some t \<Rightarrow> if length t \<ge> length (fullContent b) then t
                             else fullContent b
                 | None \<Rightarrow> fullContent b))"
  by (simp add: appendOrReplace_def split: option.splits)

lemma accumulated_handleStreamUpdate_raw:
  assumes "truthy msgId" and "part_type part = PartText \<or> part_type part = PartReasoning"
  shows "accumulated (fst (handleStreamUpdate send now bufs chatId msgId part delta)) msgId =
           fullContent (appendOrReplace (getOrInitBuffer bufs msgId part) part delta)"
  using assms fullContent_flush [of send now chatId "appendOrReplace (getOrInitBuffer bufs msgId part) part delta"]
  by (auto simp: handleStreamUpdate_def accumulated_def Let_def split: prod.splits)

lemma accumulated_handleStreamUpdate:
  assumes "truthy msgId" and "part_type part = PartText \<or> part_type part = PartReasoning"
  shows "accumulated (fst (handleStreamUpdate send now bufs chatId msgId part delta)) msgId =
           (case delta of
              Some d \<Rightarrow>
                if d \<noteq> [] then accumulated bufs msgId @ d
                else (case part_text part of
                        Some t \<Rightarrow> if length t \<ge> length (accumulated bufs msgId) then t
                                  else accumulated bufs msgId
                      | None \<Rightarrow> accumulated bufs msgId)
            | None \<Rightarrow>
                (case part_text part of
                   Some t \<Rightarrow> if length t \<ge> length (accumulated bufs msgId) then t
                             else accumulated bufs msgId
                 | None \<Rightarrow> accumulated bufs msgId))"
  by (simp only: accumulated_handleStreamUpdate_raw [OF assms] fullContent_appendOrReplace
      fullContent_getOrInit)

lemma handleStreamUpdate_guarded:
  assumes "\<not> (truthy msgId \<and> (part_type part = PartText \<or> part_type part = PartReasoning))"
  shows "handleStreamUpdate send now bufs chatId msgId part delta = (bufs, None)"
  using assms by (auto simp: handleStreamUpdate_def)

lemma accumulated_mono_step:
  "length (accumulated bufs msgId)
     \<le> length (accumulated (fst (handleStreamUpdate send now bufs chatId msgId part delta)) msgId)"
proof (cases "truthy msgId \<and> (part_type part = PartText \<or> part_type part = PartReasoning)")
  case True
  then show ?thesis
    by (simp add: accumulated_handleStreamUpdate split: option.splits)
next
  case False
  then show ?thesis by (simp add: handleStreamUpdate_guarded)
qed

lemma streamUpdates_fst_Cons:
  "fst (streamUpdates send bufs chatId msgId ((now, part, delta) # rest)) =
     fst (streamUpdates send (fst (handleStreamUpdate send now bufs chatId msgId part delta))
            chatId msgId rest)"
  by (simp add: Let_def split: prod.splits)

lemma accumulated_mono_stream:
  "length (accumulated bufs msgId)
     \<le> length (accumulated (fst (streamUpdates send bufs chatId msgId frags)) msgId)"
proof (induction frags arbitrary: bufs)
  case Nil
  then show ?case by simp
next
  case (Cons f frags)
  obtain now part delta where f: "f = (now, part, delta)" by (cases f)
  let ?b = "fst (handleStreamUpdate send now bufs chatId msgId part delta)"
  have "length (accumulated bufs msgId) \<le> length (accumulated ?b msgId)"
    by (rule accumulated_mono_step)
  also have "\<dots> \<le> length (accumulated (fst (streamUpdates send ?b chatId msgId frags)) msgId)"
    by (rule Cons.IH)
  finally show ?case
    using f by (simp add: streamUpdates_fst_Cons del: streamUpdates.simps)
qed

text \<open>
  Claim C3.  For a fragment that passes the guards of \<open>handleStreamUpdate\<close> (a message
  id, a text or reasoning part): a non-empty delta is appended to the accumulated content;
  a fragment without one that carries a full snapshot replaces the content if and only if
  the snapshot is at least as long as the content, and leaves it as it is otherwise; over
  any sequence of fragments whatever the length of the accumulated content never
  decreases.  After the deltas \<open>Hel\<close> and \<open>lo \<close> and the snapshot \<open>Hello world\<close> the
  content is \<open>Hello world\<close>, and the snapshot \<open>Hi\<close> after them leaves it so.
\<close>

theorem stream_content_append_or_replace:
  assumes "truthy msgId" and "part_type part = PartText \<or> part_type part = PartReasoning"
  shows "(delta = Some d \<and> d \<noteq> [] \<longrightarrow>
            accumulated (fst (handleStreamUpdate send now bufs chatId msgId part delta)) msgId
              = accumulated bufs msgId @ d) \<and>
         ((delta = None \<or> delta = Some []) \<and> part_text part = Some t \<longrightarrow>
            accumulated (fst (handleStreamUpdate send now bufs chatId msgId part delta)) msgId
              = (if length t \<ge> length (accumulated bufs msgId) then t
                 else accumulated bufs msgId)) \<and>
         length (accumulated bufs' msgId')
           \<le> length (accumulated (fst (streamUpdates send' bufs' chatId' msgId' frags)) msgId') \<and>
         (part_type p1 = PartText \<and> part_type p2 = PartText \<longrightarrow>
            accumulated (fst (streamUpdates send Map.empty chatId msgId
              [(t1, p1, Some ''Hel''), (t2, p2, Some ''lo ''),
               (t3, \<lparr>part_type = PartText, part_text = Some ''Hello world''\<rparr>, None)])) msgId
              = ''Hello world'' \<and>
            accumulated (fst (streamUpdates send Map.empty chatId msgId
              [(t1, p1, Some ''Hel''), (t2, p2, Some ''lo ''),
               (t3, \<lparr>part_type = PartText, part_text = Some ''Hello world''\<rparr>, None),
               (t4, \<lparr>part_type = PartText, part_text = Some ''Hi''\<rparr>, None)])) msgId
              = ''Hello world'')"
proof -
  have a: "delta = Some d \<and> d \<noteq> [] \<longrightarrow>
            accumulated (fst (handleStreamUpdate send now bufs chatId msgId part delta)) msgId
              = accumulated bufs msgId @ d"
    by (simp add: accumulated_handleStreamUpdate [OF assms])
  have b: "(delta = None \<or> delta = Some []) \<and> part_text part = Some t \<longrightarrow>
            accumulated (fst (handleStreamUpdate send now bufs chatId msgId part delta)) msgId
              = (if length t \<ge> length (accumulated bufs msgId) then t
                 else accumulated bufs msgId)"
    by (auto simp: accumulated_handleStreamUpdate [OF assms])
  have c: "length (accumulated bufs' msgId')
           \<le> length (accumulated (fst (streamUpdates send' bufs' chatId' msgId' frags)) msgId')"
    by (rule accumulated_mono_stream)
  have e: "accumulated Map.empty msgId = []" by (simp add: accumulated_def)
  have d: "part_type p1 = PartText \<and> part_type p2 = PartText \<longrightarrow>
            accumulated (fst (streamUpdates send Map.empty chatId msgId
              [(t1, p1, Some ''Hel''), (t2, p2, Some ''lo ''),
               (t3, \<lparr>part_type = PartText, part_text = Some ''Hello world''\<rparr>, None)])) msgId
              = ''Hello world'' \<and>
            accumulated (fst (streamUpdates send Map.empty chatId msgId
              [(t1, p1, Some ''Hel''), (t2, p2, Some ''lo ''),
               (t3, \<lparr>part_type = PartText, part_text = Some ''Hello world''\<rparr>, None),
               (t4, \<lparr>part_type = PartText, part_text = Some ''Hi''\<rparr>, None)])) msgId
              = ''Hello world''"
  proof
    assume p: "part_type p1 = PartText \<and> part_type p2 = PartText"
    show "accumulated (fst (streamUpdates send Map.empty chatId msgId
              [(t1, p1, Some ''Hel''), (t2, p2, Some ''lo ''),
               (t3, \<lparr>part_type = PartText, part_text = Some ''Hello world''\<rparr>, None)])) msgId
              = ''Hello world'' \<and>
            accumulated (fst (streamUpdates send Map.empty chatId msgId
              [(t1, p1, Some ''Hel''), (t2, p2, Some ''lo ''),
               (t3, \<lparr>part_type = PartText, part_text = Some ''Hello world''\<rparr>, None),
               (t4, \<lparr>part_type = PartText, part_text = Some ''Hi''\<rparr>, None)])) msgId
              = ''Hello world''"
      using assms(1) p
      by (simp add: streamUpdates_fst_Cons accumulated_handleStreamUpdate e
          del: streamUpdates.simps(2))
  qed
  show ?thesis by (rule conjI [OF a conjI [OF b conjI [OF c d]]])
qed

theorem stream_content_append_or_replace_witness:
  "truthy ''msg_1'' \<and>
   accumulated (fst (handleStreamUpdate (\<lambda>c t. Resolves (Str ''om_1'')) 1000 Map.empty ''oc_1''
      ''msg_1'' \<lparr>part_type = PartText, part_text = Some ''Hel''\<rparr> (Some ''Hel''))) ''msg_1''
     = ''Hel'' \<and>
   accumulated (fst (streamUpdates (\<lambda>c t. Resolves (Str ''om_1'')) Map.empty ''oc_1'' ''msg_1''
      [(1000, \<lparr>part_type = PartText, part_text = Some ''Hel''\<rparr>, Some ''Hel''),
       (1010, \<lparr>part_type = PartText, part_text = Some ''Hello ''\<rparr>, Some ''lo ''),
       (1020, \<lparr>part_type = PartText, part_text = Some ''Hello world''\<rparr>, None),
       (1900, \<lparr>part_type = PartText, part_text = Some ''Hi''\<rparr>, None)])) ''msg_1''
     = ''Hello world''"
proof -
  have m: "truthy ''msg_1''" by (simp add: truthy_def)
  have e: "accumulated Map.empty ''msg_1'' = []" by (simp add: accumulated_def)
  have t: "part_type \<lparr>part_type = PartText, part_text = Some ''Hel''\<rparr> = PartText \<or>
           part_type \<lparr>part_type = PartText, part_text = Some ''Hel''\<rparr> = PartReasoning"
    by simp
  have h: "Some ''Hel'' = Some ''Hel'' \<and> ''Hel'' \<noteq> []" by simp
  have p: "part_type \<lparr>part_type = PartText, part_text = Some ''Hel''\<rparr> = PartText \<and>
           part_type \<lparr>part_type = PartText, part_text = Some ''Hello ''\<rparr> = PartText"
    by simp
  note T = stream_content_append_or_replace [OF m t,
      of "Some ''Hel''" "''Hel''"
         "\<lambda>c t. Resolves (Str ''om_1'')" 1000 Map.empty "''oc_1''" "''Hel''"
         Map.empty "''msg_1''" "\<lambda>c t. Resolves (Str ''om_1'')" "''oc_1''" "[]"
         "\<lparr>part_type = PartText, part_text = Some ''Hel''\<rparr>"
         "\<lparr>part_type = PartText, part_text = Some ''Hello ''\<rparr>" 1000 1010 1020 1900,
      unfolded e append_Nil]
  from T h p m show ?thesis by blast
qed

subsection \<open>Throttled flushing\<close>

lemma appendOrReplace_keeps:
  "feishuMsgId (appendOrReplace b part delta) = feishuMsgId b"
  "lastUpdateTime (appendOrReplace b part delta) = lastUpdateTime b"
  by (simp_all add: appendOrReplace_def split: option.splits)

lemma getOrInitBuffer_fields:
  "feishuMsgId (getOrInitBuffer bufs msgId part) = recordedId bufs msgId"
  "lastUpdateTime (getOrInitBuffer bufs msgId part) = lastFlush bufs msgId"
  by (simp_all add: getOrInitBuffer_def recordedId_def lastFlush_def split: option.splits)

lemma shouldUpdate_stored:
  "shouldUpdate now (appendOrReplace (getOrInitBuffer bufs msgId part) part delta) =
     (\<not> truthy_opt (recordedId bufs msgId) \<or> now - lastFlush bufs msgId > 800)"
  by (simp add: shouldUpdate_def appendOrReplace_keeps getOrInitBuffer_fields UPDATE_INTERVAL_def)

lemma flush_iff:
  assumes "truthy msgId" and "part_type part = PartText \<or> part_type part = PartReasoning"
  shows "(snd (handleStreamUpdate send now bufs chatId msgId part delta) \<noteq> None) =
           (accumulated (fst (handleStreamUpdate send now bufs chatId msgId part delta)) msgId \<noteq> [] \<and>
            (\<not> truthy_opt (recordedId bufs msgId) \<or> now - lastFlush bufs msgId > 800))"
proof -
  let ?b = "appendOrReplace (getOrInitBuffer bufs msgId part) part delta"
  have "(snd (handleStreamUpdate send now bufs chatId msgId part delta) \<noteq> None) =
          (shouldUpdate now ?b \<and> truthy (fullContent ?b))"
    using assms by (auto simp: handleStreamUpdate_def Let_def split: prod.splits)
  then show ?thesis
    by (simp only: shouldUpdate_stored accumulated_handleStreamUpdate_raw [OF assms] truthy_def)
       blast
qed

lemma flush_keeps_recorded:
  "truthy_opt (feishuMsgId b) \<Longrightarrow>
   flush send now chatId b = (b\<lparr>lastUpdateTime := now\<rparr>,
     EditMessage chatId (or_empty (feishuMsgId b))
       (if buffer_type b = PartReasoning then reasoning_marker @ fullContent b else fullContent b))"
  by (simp add: flush_def Let_def)

lemma lastUpdateTime_flush: "lastUpdateTime (fst (flush send now chatId b)) = now"
  by (simp add: flush_def Let_def split: awaited.splits jsval.splits)

lemma handleStreamUpdate_recorded:
  assumes "truthy_opt (recordedId bufs msgId)"
  shows "recordedId (fst (handleStreamUpdate send now bufs chatId msgId part delta)) msgId
           = recordedId bufs msgId"
proof (cases "truthy msgId \<and> (part_type part = PartText \<or> part_type part = PartReasoning)")
  case False
  then show ?thesis by (simp add: handleStreamUpdate_guarded)
next
  case True
  let ?b = "appendOrReplace (getOrInitBuffer bufs msgId part) part delta"
  have rec: "feishuMsgId ?b = recordedId bufs msgId"
    by (simp add: appendOrReplace_keeps getOrInitBuffer_fields)
  with assms have "truthy_opt (feishuMsgId ?b)" by simp
  from flush_keeps_recorded [OF this, of send now chatId] rec True show ?thesis
    by (simp add: handleStreamUpdate_def Let_def recordedId_def)
qed

lemma handleStreamUpdate_lastFlush:
  assumes "snd (handleStreamUpdate send now bufs chatId msgId part delta) \<noteq> None"
  shows "lastFlush (fst (handleStreamUpdate send now bufs chatId msgId part delta)) msgId = now"
proof (cases "truthy msgId \<and> (part_type part = PartText \<or> part_type part = PartReasoning)")
  case False
  with assms show ?thesis by (simp add: handleStreamUpdate_guarded)
next
  case True
  let ?b = "appendOrReplace (getOrInitBuffer bufs msgId part) part delta"
  from True assms lastUpdateTime_flush [of send now chatId ?b] show ?thesis
    by (auto simp: handleStreamUpdate_def Let_def lastFlush_def split: prod.splits if_splits)
qed

lemma handleStreamUpdate_no_flush_keeps:
  assumes "snd (handleStreamUpdate send now bufs chatId msgId part delta) = None"
  shows "lastFlush (fst (handleStreamUpdate send now bufs chatId msgId part delta)) msgId
           = lastFlush bufs msgId"
proof (cases "truthy msgId \<and> (part_type part = PartText \<or> part_type part = PartReasoning)")
  case False
  then show ?thesis by (simp add: handleStreamUpdate_guarded)
next
  case True
  let ?b = "appendOrReplace (getOrInitBuffer bufs msgId part) part delta"
  have "lastUpdateTime ?b = lastFlush bufs msgId"
    by (simp add: appendOrReplace_keeps getOrInitBuffer_fields)
  with True assms show ?thesis
    by (auto simp: handleStreamUpdate_def Let_def lastFlush_def split: prod.splits if_splits)
qed

lemma no_flush_within_interval:
  assumes "truthy_opt (recordedId bufs msgId)" and "now - lastFlush bufs msgId \<le> 800"
  shows "snd (handleStreamUpdate send now bufs chatId msgId part delta) = None"
proof (cases "truthy msgId \<and> (part_type part = PartText \<or> part_type part = PartReasoning)")
  case False
  then show ?thesis by (simp add: handleStreamUpdate_guarded)
next
  case True
  then have g: "truthy msgId" "part_type part = PartText \<or> part_type part = PartReasoning"
    by simp_all
  from flush_iff [OF g, of send now bufs chatId delta] assms show ?thesis by simp
qed

lemma streamUpdates_two:
  "snd (streamUpdates send bufs chatId msgId [(t1, p1, d1), (t2, p2, d2)]) =
     (case snd (handleStreamUpdate send t1 bufs chatId msgId p1 d1) of None \<Rightarrow> [] | Some c \<Rightarrow> [c]) @
     (case snd (handleStreamUpdate send t2
                  (fst (handleStreamUpdate send t1 bufs chatId msgId p1 d1)) chatId msgId p2 d2) of
        None \<Rightarrow> [] | Some c \<Rightarrow> [c])"
  by (simp add: Let_def split: prod.splits option.splits)

lemma two_fragments_at_most_one:
  assumes "truthy_opt (recordedId bufs msgId)"
  shows "length (snd (streamUpdates send bufs chatId msgId [(t, p1, d1), (t + 10, p2, d2)])) \<le> 1"
proof (cases "snd (handleStreamUpdate send t bufs chatId msgId p1 d1)")
  case None
  then show ?thesis by (simp only: streamUpdates_two) (simp split: option.splits)
next
  case (Some c)
  let ?bufs = "fst (handleStreamUpdate send t bufs chatId msgId p1 d1)"
  have "lastFlush ?bufs msgId = t"
    using handleStreamUpdate_lastFlush [of send t bufs chatId msgId p1 d1] Some by simp
  moreover have "truthy_opt (recordedId ?bufs msgId)"
    using handleStreamUpdate_recorded [OF assms] assms by simp
  ultimately have "snd (handleStreamUpdate send (t + 10) ?bufs chatId msgId p2 d2) = None"
    using no_flush_within_interval [of ?bufs msgId "t + 10"] by simp
  with Some show ?thesis by (simp only: streamUpdates_two) simp
qed

lemma two_fragments_in_window:
  assumes "truthy_opt (recordedId bufs msgId)" and "t + 10 - lastFlush bufs msgId \<le> 800"
  shows "snd (streamUpdates send bufs chatId msgId [(t, p1, d1), (t + 10, p2, d2)]) = []"
proof -
  let ?bufs = "fst (handleStreamUpdate send t bufs chatId msgId p1 d1)"
  have first: "snd (handleStreamUpdate send t bufs chatId msgId p1 d1) = None"
    using no_flush_within_interval [OF assms(1), of t] assms(2) by simp
  then have "lastFlush ?bufs msgId = lastFlush bufs msgId"
    by (rule handleStreamUpdate_no_flush_keeps)
  moreover have "truthy_opt (recordedId ?bufs msgId)"
    using handleStreamUpdate_recorded [OF assms(1)] assms(1) by simp
  ultimately have "snd (handleStreamUpdate send (t + 10) ?bufs chatId msgId p2 d2) = None"
    using no_flush_within_interval [of ?bufs msgId "t + 10"] assms(2) by simp
  with first show ?thesis by (simp only: streamUpdates_two) simp
qed

lemma flush_after_interval:
  assumes "truthy msgId" and "part_type part = PartText \<or> part_type part = PartReasoning"
    and "truthy_opt (recordedId bufs msgId)" and "accumulated bufs msgId \<noteq> []"
    and "now - lastFlush bufs msgId > 800"
  shows "\<exists>text. snd (handleStreamUpdate send now bufs chatId msgId part delta)
           = Some (EditMessage chatId (or_empty (recordedId bufs msgId)) text)"
proof -
  let ?b = "appendOrReplace (getOrInitBuffer bufs msgId part) part delta"
  have rec: "feishuMsgId ?b = recordedId bufs msgId"
    by (simp add: appendOrReplace_keeps getOrInitBuffer_fields)
  have "length (accumulated bufs msgId)
          \<le> length (accumulated (fst (handleStreamUpdate send now bufs chatId msgId part delta)) msgId)"
    by (rule accumulated_mono_step)
  with assms(4) have "fullContent ?b \<noteq> []"
    by (auto simp: accumulated_handleStreamUpdate_raw [OF assms(1,2)])
  moreover have "shouldUpdate now ?b" using assms(5) by (simp add: shouldUpdate_stored)
  moreover have "truthy_opt (feishuMsgId ?b)" using rec assms(3) by simp
  ultimately show ?thesis
    using assms(1,2) rec flush_keeps_recorded [of ?b send now chatId]
    by (simp add: handleStreamUpdate_def Let_def truthy_def)
qed

text \<open>
  Claim C4, as amended.  For a fragment that passes the guards of \<open>handleStreamUpdate\<close>,
  an outbound call (a send or an edit) is made exactly when the accumulated content is
  non-empty and either no platform message id is recorded yet for the message or strictly
  more than 800 ms have passed since its last flush.  Hence, once an id is recorded, two
  fragments arriving 10 ms apart cause at most one outbound call, and none when both
  arrive within 800 ms of the last flush; and a fragment arriving 900 ms or more after
  the last flush, the content being non-empty, is flushed at once as an edit of the
  recorded id.
\<close>

theorem flush_decision:
  assumes "truthy msgId" and "part_type part = PartText \<or> part_type part = PartReasoning"
  shows "((snd (handleStreamUpdate send now bufs chatId msgId part delta) \<noteq> None) =
            (accumulated (fst (handleStreamUpdate send now bufs chatId msgId part delta)) msgId \<noteq> [] \<and>
             (\<not> truthy_opt (recordedId bufs msgId) \<or> now - lastFlush bufs msgId > 800))) \<and>
         (truthy_opt (recordedId bufs msgId) \<longrightarrow>
            length (snd (streamUpdates send bufs chatId msgId [(t, p1, d1), (t + 10, p2, d2)])) \<le> 1) \<and>
         (truthy_opt (recordedId bufs msgId) \<and> t + 10 - lastFlush bufs msgId \<le> 800 \<longrightarrow>
            snd (streamUpdates send bufs chatId msgId [(t, p1, d1), (t + 10, p2, d2)]) = []) \<and>
         (truthy_opt (recordedId bufs msgId) \<and> accumulated bufs msgId \<noteq> [] \<and>
          now - lastFlush bufs msgId \<ge> 900 \<longrightarrow>
            (\<exists>text. snd (handleStreamUpdate send now bufs chatId msgId part delta)
               = Some (EditMessage chatId (or_empty (recordedId bufs msgId)) text)))"
proof -
  have a: "(snd (handleStreamUpdate send now bufs chatId msgId part delta) \<noteq> None) =
            (accumulated (fst (handleStreamUpdate send now bufs chatId msgId part delta)) msgId \<noteq> [] \<and>
             (\<not> truthy_opt (recordedId bufs msgId) \<or> now - lastFlush bufs msgId > 800))"
    by (rule flush_iff [OF assms])
  have b: "truthy_opt (recordedId bufs msgId) \<longrightarrow>
            length (snd (streamUpdates send bufs chatId msgId [(t, p1, d1), (t + 10, p2, d2)])) \<le> 1"
    using two_fragments_at_most_one by blast
  have c: "truthy_opt (recordedId bufs msgId) \<and> t + 10 - lastFlush bufs msgId \<le> 800 \<longrightarrow>
            snd (streamUpdates send bufs chatId msgId [(t, p1, d1), (t + 10, p2, d2)]) = []"
    using two_fragments_in_window by blast
  have d: "truthy_opt (recordedId bufs msgId) \<and> accumulated bufs msgId \<noteq> [] \<and>
          now - lastFlush bufs msgId \<ge> 900 \<longrightarrow>
            (\<exists>text. snd (handleStreamUpdate send now bufs chatId msgId part delta)
               = Some (EditMessage chatId (or_empty (recordedId bufs msgId)) text))"
  proof
    assume h: "truthy_opt (recordedId bufs msgId) \<and> accumulated bufs msgId \<noteq> [] \<and>
          now - lastFlush bufs msgId \<ge> 900"
    then have "now - lastFlush bufs msgId > 800" by simp
    with h flush_after_interval [OF assms, of bufs now send chatId delta]
    show "\<exists>text. snd (handleStreamUpdate send now bufs chatId msgId part delta)
               = Some (EditMessage chatId (or_empty (recordedId bufs msgId)) text)"
      by simp
  qed
  show ?thesis by (rule conjI [OF a conjI [OF b conjI [OF c d]]])
qed

lemmas stream_eval =
  handleStreamUpdate_def getOrInitBuffer_def appendOrReplace_def shouldUpdate_def flush_def
  UPDATE_INTERVAL_def truthy_def truthy_opt_def accumulated_def recordedId_def lastFlush_def
  or_empty_def Let_def

theorem flush_decision_witness:
  "truthy ''msg_1'' \<and>
   handleStreamUpdate (\<lambda>c t. Resolves (Str ''om_1'')) 1000 Map.empty ''oc_1'' ''msg_1''
       \<lparr>part_type = PartText, part_text = None\<rparr> (Some ''Hel'')
     = ([''msg_1'' \<mapsto> \<lparr>feishuMsgId = Some ''om_1'', fullContent = ''Hel'', buffer_type = PartText,
                         lastUpdateTime = 1000, isFinished = False\<rparr>],
        Some (SendMessage ''oc_1'' ''Hel'')) \<and>
   snd (streamUpdates (\<lambda>c t. Resolves (Str ''om_1''))
        [''msg_1'' \<mapsto> \<lparr>feishuMsgId = Some ''om_1'', fullContent = ''Hel'', buffer_type = PartText,
                         lastUpdateTime = 1000, isFinished = False\<rparr>] ''oc_1'' ''msg_1''
        [(1100, \<lparr>part_type = PartText, part_text = None\<rparr>, Some ''lo ''),
         (1100 + 10, \<lparr>part_type = PartText, part_text = None\<rparr>, Some ''wor'')]) = [] \<and>
   snd (handleStreamUpdate (\<lambda>c t. Resolves (Str ''om_1'')) 1900
        [''msg_1'' \<mapsto> \<lparr>feishuMsgId = Some ''om_1'', fullContent = ''Hel'', buffer_type = PartText,
                         lastUpdateTime = 1000, isFinished = False\<rparr>] ''oc_1'' ''msg_1''
        \<lparr>part_type = PartText, part_text = None\<rparr> (Some ''lo ''))
     = Some (EditMessage ''oc_1'' ''om_1'' ''Hello '')"
proof -
  let ?send = "\<lambda>c t. Resolves (Str ''om_1'')"
  let ?p = "\<lparr>part_type = PartText, part_text = None\<rparr>"
  let ?B = "[''msg_1'' \<mapsto> \<lparr>feishuMsgId = Some ''om_1'', fullContent = ''Hel'',
               buffer_type = PartText, lastUpdateTime = 1000, isFinished = False\<rparr>]"
  have m: "truthy ''msg_1''" by (simp add: truthy_def)
  have p: "part_type ?p = PartText \<or> part_type ?p = PartReasoning" by simp
  have first: "handleStreamUpdate ?send 1000 Map.empty ''oc_1'' ''msg_1'' ?p (Some ''Hel'')
                 = (?B, Some (SendMessage ''oc_1'' ''Hel''))"
    by (simp add: stream_eval)
  have late: "snd (handleStreamUpdate ?send 1900 ?B ''oc_1'' ''msg_1'' ?p (Some ''lo ''))
                = Some (EditMessage ''oc_1'' ''om_1'' ''Hello '')"
    by (simp add: stream_eval)
  have h: "truthy_opt (recordedId ?B ''msg_1'') \<and> 1100 + 10 - lastFlush ?B ''msg_1'' \<le> 800"
    by (simp add: truthy_def truthy_opt_def recordedId_def lastFlush_def)
  note T = flush_decision [OF m p, of ?send 1900 ?B "''oc_1''" "Some ''lo ''" 1100 ?p "Some ''lo ''"
      ?p "Some ''wor''"]
  from T h have "snd (streamUpdates ?send ?B ''oc_1'' ''msg_1''
        [(1100, ?p, Some ''lo ''), (1100 + 10, ?p, Some ''wor'')]) = []" by blast
  with m first late show ?thesis by blast
qed

text \<open>
  The boundary of the throttle: with a platform message id recorded, the last flush at
  1000 and a fragment at 1800, exactly 800 ms later, the content is non-empty and no
  outbound call is made, against the reading "at least 800 ms".
\<close>

theorem flush_at_interval_counterexample:
  "\<not> ((snd (handleStreamUpdate (\<lambda>c t. Resolves (Str ''om_1'')) 1800
            [''msg_1'' \<mapsto> \<lparr>feishuMsgId = Some ''om_1'', fullContent = ''Hello'',
               buffer_type = PartText, lastUpdateTime = 1000, isFinished = False\<rparr>]
            ''oc_1'' ''msg_1'' \<lparr>part_type = PartText, part_text = None\<rparr> (Some '' world''))
          \<noteq> None) =
       (accumulated (fst (handleStreamUpdate (\<lambda>c t. Resolves (Str ''om_1'')) 1800
            [''msg_1'' \<mapsto> \<lparr>feishuMsgId = Some ''om_1'', fullContent = ''Hello'',
               buffer_type = PartText, lastUpdateTime = 1000, isFinished = False\<rparr>]
            ''oc_1'' ''msg_1'' \<lparr>part_type = PartText, part_text = None\<rparr> (Some '' world'')))
          ''msg_1'' \<noteq> [] \<and>
        (\<not> truthy_opt (recordedId
            [''msg_1'' \<mapsto> \<lparr>feishuMsgId = Some ''om_1'', fullContent = ''Hello'',
               buffer_type = PartText, lastUpdateTime = 1000, isFinished = False\<rparr>] ''msg_1'') \<or>
         1800 - lastFlush
            [''msg_1'' \<mapsto> \<lparr>feishuMsgId = Some ''om_1'', fullContent = ''Hello'',
               buffer_type = PartText, lastUpdateTime = 1000, isFinished = False\<rparr>] ''msg_1''
           \<ge> 800)))"
  by (simp add: stream_eval)

subsection \<open>What \<open>sendMessage\<close> returns\<close>

lemma Teams_sendMessage_result:
  "Teams_sendMessage post fmt chatId text =
     (case post chatId (fmt text) of
        Resolves (Some m) \<Rightarrow> if m \<noteq> [] then Str m else Null
      | _ \<Rightarrow> Null)"
  by (simp add: Teams_sendMessage_def truthy_def split: awaited.splits option.splits)

text \<open>
  Claim C2, evaluated where it fails.  The Feishu client's \<open>sendMessage\<close> returns
  \<open>undefined\<close> whatever the Feishu API answers: when the API call succeeds and creates
  message \<open>om_9\<close> it does not return that id, and when the call fails it does not return
  \<open>null\<close>.  With the same answer the Teams client returns the id.  In the flush path
  fed by the Feishu client, no platform message id is recorded after the first send, so
  the next flush is a second send and not an edit.
\<close>

theorem Feishu_sendMessage_returns_no_id:
  "Feishu_sendMessage create chatId text = Undefined \<and>
   Feishu_sendMessage (\<lambda>c t. Resolves (Some ''om_9'')) ''oc_1'' ''hello'' \<noteq> Str ''om_9'' \<and>
   Feishu_sendMessage (\<lambda>c t. Rejects) ''oc_1'' ''hello'' \<noteq> Null \<and>
   Teams_sendMessage (\<lambda>c b. Resolves (Some ''om_9'')) (\<lambda>t. t) ''oc_1'' ''hello'' = Str ''om_9'' \<and>
   Teams_sendMessage (\<lambda>c b. Rejects) (\<lambda>t. t) ''oc_1'' ''hello'' = Null \<and>
   recordedId (fst (handleStreamUpdate
       (\<lambda>c t. Resolves (Feishu_sendMessage (\<lambda>c t. Resolves (Some ''om_9'')) c t))
       1000 Map.empty ''oc_1'' ''msg_1'' \<lparr>part_type = PartText, part_text = None\<rparr> (Some ''Hel'')))
     ''msg_1'' = None \<and>
   snd (streamUpdates
       (\<lambda>c t. Resolves (Feishu_sendMessage (\<lambda>c t. Resolves (Some ''om_9'')) c t))
       Map.empty ''oc_1'' ''msg_1''
       [(1000, \<lparr>part_type = PartText, part_text = None\<rparr>, Some ''Hel''),
        (1010, \<lparr>part_type = PartText, part_text = None\<rparr>, Some ''lo '')])
     = [SendMessage ''oc_1'' ''Hel'', SendMessage ''oc_1'' ''Hello '']"
proof -
  have general: "\<And>create chatId text. Feishu_sendMessage create chatId text = Undefined"
    by (simp add: Feishu_sendMessage_def split: awaited.splits)
  have teams_ok: "Teams_sendMessage (\<lambda>c b. Resolves (Some ''om_9'')) (\<lambda>t. t) ''oc_1'' ''hello''
                    = Str ''om_9''"
    by (simp add: Teams_sendMessage_result)
  have teams_fail: "Teams_sendMessage (\<lambda>c b. Rejects) (\<lambda>t. t) ''oc_1'' ''hello'' = Null"
    by (simp add: Teams_sendMessage_result)
  have rec: "recordedId (fst (handleStreamUpdate
       (\<lambda>c t. Resolves (Feishu_sendMessage (\<lambda>c t. Resolves (Some ''om_9'')) c t))
       1000 Map.empty ''oc_1'' ''msg_1'' \<lparr>part_type = PartText, part_text = None\<rparr> (Some ''Hel'')))
     ''msg_1'' = None"
    by (simp add: general stream_eval)
  have twice: "snd (streamUpdates
       (\<lambda>c t. Resolves (Feishu_sendMessage (\<lambda>c t. Resolves (Some ''om_9'')) c t))
       Map.empty ''oc_1'' ''msg_1''
       [(1000, \<lparr>part_type = PartText, part_text = None\<rparr>, Some ''Hel''),
        (1010, \<lparr>part_type = PartText, part_text = None\<rparr>, Some ''lo '')])
     = [SendMessage ''oc_1'' ''Hel'', SendMessage ''oc_1'' ''Hello '']"
    by (simp add: general stream_eval)
  from general teams_ok teams_fail rec twice show ?thesis by simp
qed

subsection \<open>Teams token lifecycle\<close>

lemma parseTeamsConfig_client_id:
  "parseTeamsConfig options = Inr cfg \<Longrightarrow> truthy_opt (client_id (config (newTeamsClient cfg)))"
  by (auto simp: parseTeamsConfig_def newTeamsClient_def split: if_splits)

lemma refreshAccessToken_settle_config:
  "config (fst (refreshAccessToken_settle response now this)) = config this"
  by (simp add: refreshAccessToken_settle_def Let_def split: awaited.splits)

lemma ensureValidToken_request_cases:
  "ensureValidToken_request now this =
     (if truthy_opt (accessToken this) \<and> now < tokenExpiresAt this - 60000 then Returned
      else if truthy_opt (refreshToken this) \<and> truthy_opt (client_id (config this))
      then Awaiting (token_params this)
      else if \<not> truthy_opt (accessToken this) then Threw NoAccessToken
      else Returned)"
  by (simp add: ensureValidToken_request_def refreshAccessToken_request_def)

lemma settle_failure_not_NoAccessToken:
  "refreshAccessToken_settle response later this \<noteq> (this', Some NoAccessToken)"
  by (simp add: refreshAccessToken_settle_def Let_def split: awaited.splits)

text \<open>
  Claim C8.  \<open>ensureValidToken\<close> fails with the no-access-token error exactly when no
  access token is set and no refresh credential is configured; the client id being a
  mandatory option (\<open>parseTeamsConfig\<close> throws without it), a refresh credential is
  configured exactly when a refresh token is.  If an access token is set and the expiry is
  more than 60 s away it returns with the client unchanged and no refresh request.  If the
  token is missing or within the margin and a refresh credential is configured, it performs
  a refresh: it sends one request, which carries the configured client id, the current
  refresh token, the tenant (\<open>common\<close> by default) and the client secret if there is
  one; when the request resolves it records the access token of the response, the refresh
  token of the response if it has one, and the expiry, the clock at that moment plus the
  reported lifetime (3600 s when none is reported) in milliseconds, and returns; when the
  request is rejected it leaves the client as it is and fails with that error.  With a
  token set and no refresh credential it returns with the client unchanged, whatever the
  expiry.
\<close>

theorem ensureValidToken_cases:
  "((fst (snd (ensureValidToken post now later this)) = Some NoAccessToken) =
      (\<not> truthy_opt (accessToken this) \<and> \<not> refreshConfigured this)) \<and>
   (truthy_opt (client_id (config this)) \<longrightarrow>
      refreshConfigured this = truthy_opt (refreshToken this)) \<and>
   (truthy_opt (accessToken this) \<and> now < tokenExpiresAt this - 60000 \<longrightarrow>
      ensureValidToken post now later this = (this, None, 0)) \<and>
   ((\<not> truthy_opt (accessToken this) \<or> tokenExpiresAt this - 60000 \<le> now) \<and>
    refreshConfigured this \<longrightarrow>
      snd (snd (ensureValidToken post now later this)) = 1) \<and>
   (truthy_opt (accessToken this) \<and> \<not> refreshConfigured this \<longrightarrow>
      ensureValidToken post now later this = (this, None, 0)) \<and>
   ((\<not> truthy_opt (accessToken this) \<or> tokenExpiresAt this - 60000 \<le> now) \<and>
    refreshToken this = Some rt \<and> rt \<noteq> [] \<and>
    client_id (config this) = Some cid \<and> cid \<noteq> [] \<longrightarrow>
      ensureValidToken post now later this =
        (case post \<lparr>req_tenant = (case tenant_id (config this) of
                                      Some tenant \<Rightarrow> if tenant \<noteq> [] then tenant else ''common''
                                    | None \<Rightarrow> ''common''),
                      req_client_id = cid,
                      req_refresh_token = rt,
                      req_client_secret = (case client_secret (config this) of
                                             Some secret \<Rightarrow> if secret \<noteq> [] then Some secret else None
                                           | None \<Rightarrow> None)\<rparr> of
           Resolves res \<Rightarrow>
             (this\<lparr>accessToken := res_access_token res,
                   refreshToken := (case res_refresh_token res of
                                      Some rotated \<Rightarrow> if rotated \<noteq> [] then Some rotated else Some rt
                                    | None \<Rightarrow> Some rt),
                   tokenExpiresAt := later + (case res_expires_in res of
                                                Some n \<Rightarrow> if n \<noteq> 0 then n else 3600
                                              | None \<Rightarrow> 3600) * 1000\<rparr>,
              None, 1)
         | Rejects \<Rightarrow> (this, Some TokenRefreshFailed, 1)))"
proof -
  have a: "(fst (snd (ensureValidToken post now later this)) = Some NoAccessToken) =
      (\<not> truthy_opt (accessToken this) \<and> \<not> refreshConfigured this)"
    by (auto simp: ensureValidToken_def ensureValidToken_request_cases refreshConfigured_def
        settle_failure_not_NoAccessToken split: prod.splits)
  have a': "truthy_opt (client_id (config this)) \<longrightarrow>
      refreshConfigured this = truthy_opt (refreshToken this)"
    by (simp add: refreshConfigured_def)
  have b: "truthy_opt (accessToken this) \<and> now < tokenExpiresAt this - 60000 \<longrightarrow>
      ensureValidToken post now later this = (this, None, 0)"
    by (simp add: ensureValidToken_def ensureValidToken_request_cases)
  have c: "(\<not> truthy_opt (accessToken this) \<or> tokenExpiresAt this - 60000 \<le> now) \<and>
    refreshConfigured this \<longrightarrow>
      snd (snd (ensureValidToken post now later this)) = 1"
    by (auto simp: ensureValidToken_def ensureValidToken_request_cases refreshConfigured_def
        split: prod.splits)
  have d: "truthy_opt (accessToken this) \<and> \<not> refreshConfigured this \<longrightarrow>
      ensureValidToken post now later this = (this, None, 0)"
    by (auto simp: ensureValidToken_def ensureValidToken_request_cases refreshConfigured_def)
  have e: "(\<not> truthy_opt (accessToken this) \<or> tokenExpiresAt this - 60000 \<le> now) \<and>
    refreshToken this = Some rt \<and> rt \<noteq> [] \<and>
    client_id (config this) = Some cid \<and> cid \<noteq> [] \<longrightarrow>
      ensureValidToken post now later this =
        (case post \<lparr>req_tenant = (case tenant_id (config this) of
                                      Some tenant \<Rightarrow> if tenant \<noteq> [] then tenant else ''common''
                                    | None \<Rightarrow> ''common''),
                      req_client_id = cid,
                      req_refresh_token = rt,
                      req_client_secret = (case client_secret (config this) of
                                             Some secret \<Rightarrow> if secret \<noteq> [] then Some secret else None
                                           | None \<Rightarrow> None)\<rparr> of
           Resolves res \<Rightarrow>
             (this\<lparr>accessToken := res_access_token res,
                   refreshToken := (case res_refresh_token res of
                                      Some rotated \<Rightarrow> if rotated \<noteq> [] then Some rotated else Some rt
                                    | None \<Rightarrow> Some rt),
                   tokenExpiresAt := later + (case res_expires_in res of
                                                Some n \<Rightarrow> if n \<noteq> 0 then n else 3600
                                              | None \<Rightarrow> 3600) * 1000\<rparr>,
              None, 1)
         | Rejects \<Rightarrow> (this, Some TokenRefreshFailed, 1))"
  proof
    assume h: "(\<not> truthy_opt (accessToken this) \<or> tokenExpiresAt this - 60000 \<le> now) \<and>
      refreshToken this = Some rt \<and> rt \<noteq> [] \<and>
      client_id (config this) = Some cid \<and> cid \<noteq> []"
    then have stale: "\<not> (truthy_opt (accessToken this) \<and> now < tokenExpiresAt this - 60000)"
      by auto
    from h have conf: "truthy_opt (refreshToken this) \<and> truthy_opt (client_id (config this))"
      by (simp add: truthy_opt_def truthy_def)
    from h have params: "token_params this =
        \<lparr>req_tenant = (case tenant_id (config this) of
                         Some tenant \<Rightarrow> if tenant \<noteq> [] then tenant else ''common''
                       | None \<Rightarrow> ''common''),
         req_client_id = cid,
         req_refresh_token = rt,
         req_client_secret = (case client_secret (config this) of
                                Some secret \<Rightarrow> if secret \<noteq> [] then Some secret else None
                              | None \<Rightarrow> None)\<rparr>"
      by (simp add: token_params_def truthy_opt_def truthy_def or_empty_def
          split: option.splits)
    have request: "ensureValidToken_request now this = Awaiting (token_params this)"
      using stale conf by (simp add: ensureValidToken_request_cases)
    have settle: "\<And>response. refreshAccessToken_settle response later this =
        (case response of
           Resolves res \<Rightarrow>
             (this\<lparr>accessToken := res_access_token res,
                   refreshToken := (case res_refresh_token res of
                                      Some rotated \<Rightarrow> if rotated \<noteq> [] then Some rotated else Some rt
                                    | None \<Rightarrow> Some rt),
                   tokenExpiresAt := later + (case res_expires_in res of
                                                Some n \<Rightarrow> if n \<noteq> 0 then n else 3600
                                              | None \<Rightarrow> 3600) * 1000\<rparr>,
              None)
         | Rejects \<Rightarrow> (this, Some TokenRefreshFailed))"
      using h
      by (simp add: refreshAccessToken_settle_def Let_def truthy_opt_def truthy_def
          split: awaited.splits option.splits)
    show "ensureValidToken post now later this =
        (case post \<lparr>req_tenant = (case tenant_id (config this) of
                                      Some tenant \<Rightarrow> if tenant \<noteq> [] then tenant else ''common''
                                    | None \<Rightarrow> ''common''),
                      req_client_id = cid,
                      req_refresh_token = rt,
                      req_client_secret = (case client_secret (config this) of
                                             Some secret \<Rightarrow> if secret \<noteq> [] then Some secret else None
                                           | None \<Rightarrow> None)\<rparr> of
           Resolves res \<Rightarrow>
             (this\<lparr>accessToken := res_access_token res,
                   refreshToken := (case res_refresh_token res of
                                      Some rotated \<Rightarrow> if rotated \<noteq> [] then Some rotated else Some rt
                                    | None \<Rightarrow> Some rt),
                   tokenExpiresAt := later + (case res_expires_in res of
                                                Some n \<Rightarrow> if n \<noteq> 0 then n else 3600
                                              | None \<Rightarrow> 3600) * 1000\<rparr>,
              None, 1)
         | Rejects \<Rightarrow> (this, Some TokenRefreshFailed, 1))"
      unfolding params [symmetric]
      by (simp add: ensureValidToken_def request settle split: awaited.splits)
  qed
  show ?thesis by (rule conjI [OF a conjI [OF a' conjI [OF b conjI [OF c conjI [OF d e]]]]])
qed

lemmas token_eval =
  ensureValidToken_def ensureValidToken_request_def refreshAccessToken_request_def token_params_def
  refreshAccessToken_settle_def truthy_opt_def truthy_def or_empty_def Let_def

theorem ensureValidToken_cases_witness:
  "fst (snd (ensureValidToken (\<lambda>q. Rejects) 1000000 1000500
      \<lparr>config = \<lparr>client_id = Some ''cid'', client_secret = None, tenant_id = None,
                  access_token = None, refresh_token = None\<rparr>,
        accessToken = Some [], tokenExpiresAt = 0, refreshToken = None\<rparr>)) = Some NoAccessToken \<and>
   ensureValidToken (\<lambda>q. Rejects) 1000000 1000500
      \<lparr>config = \<lparr>client_id = Some ''cid'', client_secret = None, tenant_id = None,
                  access_token = Some ''tok'', refresh_token = Some ''r1''\<rparr>,
        accessToken = Some ''tok'', tokenExpiresAt = 1090000, refreshToken = Some ''r1''\<rparr>
     = (\<lparr>config = \<lparr>client_id = Some ''cid'', client_secret = None, tenant_id = None,
                  access_token = Some ''tok'', refresh_token = Some ''r1''\<rparr>,
        accessToken = Some ''tok'', tokenExpiresAt = 1090000, refreshToken = Some ''r1''\<rparr>,
        None, 0) \<and>
   snd (snd (ensureValidToken (\<lambda>q. Rejects) 1000000 1000500
      \<lparr>config = \<lparr>client_id = Some ''cid'', client_secret = None, tenant_id = None,
                  access_token = Some ''tok'', refresh_token = Some ''r1''\<rparr>,
        accessToken = Some ''tok'', tokenExpiresAt = 1030000, refreshToken = Some ''r1''\<rparr>)) = 1 \<and>
   ensureValidToken (\<lambda>q. Rejects) 1000000 1000500
      \<lparr>config = \<lparr>client_id = Some ''cid'', client_secret = None, tenant_id = None,
                  access_token = Some ''tok'', refresh_token = None\<rparr>,
        accessToken = Some ''tok'', tokenExpiresAt = 0, refreshToken = None\<rparr>
     = (\<lparr>config = \<lparr>client_id = Some ''cid'', client_secret = None, tenant_id = None,
                  access_token = Some ''tok'', refresh_token = None\<rparr>,
        accessToken = Some ''tok'', tokenExpiresAt = 0, refreshToken = None\<rparr>,
        None, 0) \<and>
   ensureValidToken
      (\<lambda>q. if q = \<lparr>req_tenant = ''common'', req_client_id = ''cid'',
                      req_refresh_token = ''r1'', req_client_secret = None\<rparr>
           then Resolves \<lparr>res_access_token = Some ''tok2'', res_refresh_token = Some ''r2'',
                           res_expires_in = Some 3600\<rparr>
           else Rejects) 1000000 1000500
      \<lparr>config = \<lparr>client_id = Some ''cid'', client_secret = None, tenant_id = None,
                  access_token = Some ''tok'', refresh_token = Some ''r1''\<rparr>,
        accessToken = Some ''tok'', tokenExpiresAt = 1030000, refreshToken = Some ''r1''\<rparr>
     = (\<lparr>config = \<lparr>client_id = Some ''cid'', client_secret = None, tenant_id = None,
                  access_token = Some ''tok'', refresh_token = Some ''r1''\<rparr>,
        accessToken = Some ''tok2'', tokenExpiresAt = 4600500, refreshToken = Some ''r2''\<rparr>,
        None, 1) \<and>
   ensureValidToken (\<lambda>q. Rejects) 1000000 1000500
      \<lparr>config = \<lparr>client_id = Some ''cid'', client_secret = None, tenant_id = None,
                  access_token = Some ''tok'', refresh_token = Some ''r1''\<rparr>,
        accessToken = Some ''tok'', tokenExpiresAt = 1030000, refreshToken = Some ''r1''\<rparr>
     = (\<lparr>config = \<lparr>client_id = Some ''cid'', client_secret = None, tenant_id = None,
                  access_token = Some ''tok'', refresh_token = Some ''r1''\<rparr>,
        accessToken = Some ''tok'', tokenExpiresAt = 1030000, refreshToken = Some ''r1''\<rparr>,
        Some TokenRefreshFailed, 1)"
proof -
  let ?answer = "\<lambda>q. if q = \<lparr>req_tenant = ''common'', req_client_id = ''cid'',
                      req_refresh_token = ''r1'', req_client_secret = None\<rparr>
           then Resolves \<lparr>res_access_token = Some ''tok2'', res_refresh_token = Some ''r2'',
                           res_expires_in = Some 3600\<rparr>
           else Rejects"
  let ?renewed = "\<lparr>config = \<lparr>client_id = Some ''cid'', client_secret = None, tenant_id = None,
                  access_token = Some ''tok'', refresh_token = Some ''r1''\<rparr>,
        accessToken = Some ''tok2'', tokenExpiresAt = 4600500, refreshToken = Some ''r2''\<rparr>"
  let ?none = "\<lparr>config = \<lparr>client_id = Some ''cid'', client_secret = None, tenant_id = None,
                  access_token = None, refresh_token = None\<rparr>,
        accessToken = Some [], tokenExpiresAt = 0, refreshToken = None\<rparr>"
  let ?fresh = "\<lparr>config = \<lparr>client_id = Some ''cid'', client_secret = None, tenant_id = None,
                  access_token = Some ''tok'', refresh_token = Some ''r1''\<rparr>,
        accessToken = Some ''tok'', tokenExpiresAt = 1090000, refreshToken = Some ''r1''\<rparr>"
  let ?stale = "\<lparr>config = \<lparr>client_id = Some ''cid'', client_secret = None, tenant_id = None,
                  access_token = Some ''tok'', refresh_token = Some ''r1''\<rparr>,
        accessToken = Some ''tok'', tokenExpiresAt = 1030000, refreshToken = Some ''r1''\<rparr>"
  let ?asis = "\<lparr>config = \<lparr>client_id = Some ''cid'', client_secret = None, tenant_id = None,
                  access_token = Some ''tok'', refresh_token = None\<rparr>,
        accessToken = Some ''tok'', tokenExpiresAt = 0, refreshToken = None\<rparr>"
  have h1: "\<not> truthy_opt (accessToken ?none) \<and> \<not> refreshConfigured ?none"
    by (simp add: truthy_opt_def truthy_def refreshConfigured_def)
  have h2: "truthy_opt (accessToken ?fresh) \<and> 1000000 < tokenExpiresAt ?fresh - 60000"
    by (simp add: truthy_opt_def truthy_def)
  have h3: "(\<not> truthy_opt (accessToken ?stale) \<or> tokenExpiresAt ?stale - 60000 \<le> 1000000) \<and>
            refreshConfigured ?stale"
    by (simp add: truthy_opt_def truthy_def refreshConfigured_def)
  have h4: "truthy_opt (accessToken ?asis) \<and> \<not> refreshConfigured ?asis"
    by (simp add: truthy_opt_def truthy_def refreshConfigured_def)
  from ensureValidToken_cases [of "\<lambda>q. Rejects" 1000000 1000500 ?none] h1
  have c1: "fst (snd (ensureValidToken (\<lambda>q. Rejects) 1000000 1000500 ?none)) = Some NoAccessToken"
    by blast
  from ensureValidToken_cases [of "\<lambda>q. Rejects" 1000000 1000500 ?fresh] h2
  have c2: "ensureValidToken (\<lambda>q. Rejects) 1000000 1000500 ?fresh = (?fresh, None, 0)"
    by blast
  from ensureValidToken_cases [of "\<lambda>q. Rejects" 1000000 1000500 ?stale] h3
  have c3: "snd (snd (ensureValidToken (\<lambda>q. Rejects) 1000000 1000500 ?stale)) = 1"
    by blast
  from ensureValidToken_cases [of "\<lambda>q. Rejects" 1000000 1000500 ?asis] h4
  have c4: "ensureValidToken (\<lambda>q. Rejects) 1000000 1000500 ?asis = (?asis, None, 0)"
    by blast
  have h5: "(\<not> truthy_opt (accessToken ?stale) \<or> tokenExpiresAt ?stale - 60000 \<le> 1000000) \<and>
            refreshToken ?stale = Some ''r1'' \<and> ''r1'' \<noteq> [] \<and>
            client_id (config ?stale) = Some ''cid'' \<and> ''cid'' \<noteq> []"
    by simp
  note renew = ensureValidToken_cases [of ?answer 1000000 1000500 ?stale "''r1''" "''cid''",
      THEN conjunct2, THEN conjunct2, THEN conjunct2, THEN conjunct2, THEN conjunct2,
      THEN mp, OF h5]
  then have c5: "ensureValidToken ?answer 1000000 1000500 ?stale = (?renewed, None, 1)"
    by simp
  note reject = ensureValidToken_cases [of "\<lambda>q. Rejects" 1000000 1000500 ?stale "''r1''" "''cid''",
      THEN conjunct2, THEN conjunct2, THEN conjunct2, THEN conjunct2, THEN conjunct2,
      THEN mp, OF h5]
  then have c6: "ensureValidToken (\<lambda>q. Rejects) 1000000 1000500 ?stale
                   = (?stale, Some TokenRefreshFailed, 1)"
    by simp
  from c1 c2 c3 c4 c5 c6 show ?thesis by blast
qed

lemma token_step_Invoke_stale:
  assumes "truthy_opt (refreshToken (client r))" and "truthy_opt (client_id (config (client r)))"
    and "\<not> (truthy_opt (accessToken (client r)) \<and> now < tokenExpiresAt (client r) - 60000)"
  shows "token_step r (Invoke now) =
           r\<lparr>in_flight := in_flight r @ [token_params (client r)],
             sent := sent r @ [token_params (client r)]\<rparr>"
  using assms by (auto simp: ensureValidToken_request_cases)

lemma token_steps_Cons: "token_steps r (e # es) = token_steps (token_step r e) es"
  by (simp add: token_steps_def)

lemma token_steps_Invoke_stale:
  assumes "truthy_opt (refreshToken (client r))" and "truthy_opt (client_id (config (client r)))"
    and "\<forall>now \<in> set clocks.
           \<not> (truthy_opt (accessToken (client r)) \<and> now < tokenExpiresAt (client r) - 60000)"
  shows "token_steps r (map Invoke clocks) =
           r\<lparr>in_flight := in_flight r @ replicate (length clocks) (token_params (client r)),
             sent := sent r @ replicate (length clocks) (token_params (client r))\<rparr>"
  using assms
proof (induction clocks arbitrary: r)
  case Nil
  then show ?case by (simp add: token_steps_def)
next
  case (Cons t clocks)
  let ?r = "r\<lparr>in_flight := in_flight r @ [token_params (client r)],
               sent := sent r @ [token_params (client r)]\<rparr>"
  have step: "token_step r (Invoke t) = ?r"
    using token_step_Invoke_stale [of r t] Cons.prems by simp
  have "token_steps ?r (map Invoke clocks) =
          ?r\<lparr>in_flight := in_flight ?r @ replicate (length clocks) (token_params (client ?r)),
              sent := sent ?r @ replicate (length clocks) (token_params (client ?r))\<rparr>"
    using Cons.prems by (intro Cons.IH) simp_all
  then show ?case
    using step by (simp add: token_steps_Cons replicate_app_Cons_same)
qed

lemma fresh_after_settle:
  assumes "truthy_opt (res_access_token res)" and "res_expires_in res = Some lifetime"
    and "lifetime \<noteq> 0" and "now < settled + lifetime * 1000 - 60000"
  shows "ensureValidToken_request now
           (fst (refreshAccessToken_settle (Resolves res) settled this)) = Returned"
  using assms by (simp add: ensureValidToken_request_cases refreshAccessToken_settle_def)

text \<open>
  Claim C7, as amended.  While the token is missing or within the 60 s margin and a refresh
  token and a client id are configured, every invocation of \<open>ensureValidToken\<close> made
  before a refresh settles sends a refresh request of its own and leaves the client as it
  is: \<open>n\<close> such invocations send \<open>n\<close> requests, three concurrent ones send three.  No
  caller waits for a refresh another caller started.  An invocation made after a refresh
  has resolved with an access token, and more than 60 s before the new expiry, sends none.
\<close>

theorem refresh_per_invocation:
  assumes "truthy_opt (refreshToken (client r))" and "truthy_opt (client_id (config (client r)))"
    and "\<forall>now \<in> set clocks.
           \<not> (truthy_opt (accessToken (client r)) \<and> now < tokenExpiresAt (client r) - 60000)"
  shows "length (sent (token_steps r (map Invoke clocks))) = length (sent r) + length clocks \<and>
         length (in_flight (token_steps r (map Invoke clocks)))
           = length (in_flight r) + length clocks \<and>
         client (token_steps r (map Invoke clocks)) = client r \<and>
         (truthy_opt (res_access_token res) \<and> res_expires_in res = Some lifetime \<and>
          lifetime \<noteq> 0 \<and> later < settled + lifetime * 1000 - 60000 \<longrightarrow>
            ensureValidToken_request later
              (fst (refreshAccessToken_settle (Resolves res) settled this)) = Returned)"
  using token_steps_Invoke_stale [OF assms] fresh_after_settle [of res lifetime later settled this]
  by simp

theorem refresh_per_invocation_witness:
  "truthy_opt (Some ''r1'') \<and> truthy_opt (Some ''cid'') \<and>
   \<not> ((1000000::int) < 1030000 - 60000) \<and>
   length (sent (token_steps
     \<lparr>client = \<lparr>config = \<lparr>client_id = Some ''cid'', client_secret = None, tenant_id = None,
                    access_token = Some ''tok'', refresh_token = Some ''r1''\<rparr>,
                 accessToken = Some ''tok'', tokenExpiresAt = 1030000,
                 refreshToken = Some ''r1''\<rparr>,
      in_flight = [], sent = []\<rparr>
     (map Invoke [1000000, 1000000, 1000000]))) = 3"
proof -
  let ?r = "\<lparr>client = \<lparr>config = \<lparr>client_id = Some ''cid'', client_secret = None,
                    tenant_id = None, access_token = Some ''tok'', refresh_token = Some ''r1''\<rparr>,
                 accessToken = Some ''tok'', tokenExpiresAt = 1030000,
                 refreshToken = Some ''r1''\<rparr>,
      in_flight = [], sent = []\<rparr>"
  have h1: "truthy_opt (Some ''r1'')" and h2: "truthy_opt (Some ''cid'')"
    by (simp_all add: truthy_opt_def truthy_def)
  have h3: "\<forall>now \<in> set [1000000, 1000000, 1000000].
              \<not> (truthy_opt (accessToken (client ?r)) \<and> now < tokenExpiresAt (client ?r) - 60000)"
    by simp
  have "length (sent (token_steps ?r (map Invoke [1000000, 1000000, 1000000])))
          = length (sent ?r) + length [1000000, 1000000, 1000000 :: int]"
    using refresh_per_invocation [of ?r "[1000000, 1000000, 1000000]"] h1 h2 h3 by simp
  then have "length (sent (token_steps ?r (map Invoke [1000000, 1000000, 1000000]))) = 3"
    by simp
  with h1 h2 show ?thesis by simp
qed

text \<open>
  Three invocations at clock 1000000 on a client whose token expires at 1030000, 30 s
  later, with a refresh token and a client id, none of the refreshes having settled: the
  number of refresh requests sent is not one.
\<close>

theorem three_concurrent_refresh_counterexample:
  "length (sent (token_steps
     \<lparr>client = \<lparr>config = \<lparr>client_id = Some ''cid'', client_secret = None, tenant_id = None,
                    access_token = Some ''tok'', refresh_token = Some ''r1''\<rparr>,
                 accessToken = Some ''tok'', tokenExpiresAt = 1030000,
                 refreshToken = Some ''r1''\<rparr>,
      in_flight = [], sent = []\<rparr>
     [Invoke 1000000, Invoke 1000000, Invoke 1000000])) \<noteq> 1"
  by (simp add: token_steps_def token_eval)

subsection \<open>Session routing\<close>

lemma resolveSession_cached:
  "sessionCache st chatId = Some s \<Longrightarrow> truthy s \<Longrightarrow>
   resolveSession env st chatId = (st, [], Some s, None)"
  by (simp add: resolveSession_def)

lemma resolveSession_created:
  "sessionCache st chatId = None \<Longrightarrow>
   createSession env (uniqueTitle chatId (clock env)) = Succeeds (Some s) \<Longrightarrow> truthy s \<Longrightarrow>
   resolveSession env st chatId =
     (st\<lparr>sessionCache := (sessionCache st)(chatId \<mapsto> s)\<rparr>,
      [CreateSession (uniqueTitle chatId (clock env))], Some s, None)"
  by (simp add: resolveSession_def Let_def truthy_opt_def or_empty_def)

lemma handler_on_resolved:
  assumes "\<not> isPing env text"
    and "resolveSession env st chatId = (st', acts, Some s, None)"
  shows "promptedSession (snd (createMessageHandler env st chatId text messageId senderId))
           = (case promptedSession acts of Some p \<Rightarrow> Some p | None \<Rightarrow> Some s) \<and>
         sessionsCreated (snd (createMessageHandler env st chatId text messageId senderId))
           = sessionsCreated acts \<and>
         sessionCache (fst (createMessageHandler env st chatId text messageId senderId)) chatId
           = (if notFound (promptSession env s text) then None else sessionCache st' chatId)"
proof -
  have app_p: "\<And>xs ys. promptedSession (xs @ ys) =
                  (case promptedSession xs of Some p \<Rightarrow> Some p | None \<Rightarrow> promptedSession ys)"
  proof -
    fix xs ys show "promptedSession (xs @ ys) =
                  (case promptedSession xs of Some p \<Rightarrow> Some p | None \<Rightarrow> promptedSession ys)"
      by (induction xs rule: promptedSession.induct) simp_all
  qed
  have app_c: "\<And>xs ys. sessionsCreated (xs @ ys) = sessionsCreated xs + sessionsCreated ys"
  proof -
    fix xs ys show "sessionsCreated (xs @ ys) = sessionsCreated xs + sessionsCreated ys"
      by (induction xs rule: sessionsCreated.induct) simp_all
  qed
  show ?thesis
    using assms
    by (cases "promptSession env s text")
       (auto simp: createMessageHandler_def resolveAndPrompt_def Let_def app_p app_c notFound_def
             split: option.splits)
qed

lemma handler_cached:
  assumes "\<not> isPing env text" and "sessionCache st chatId = Some s" and "truthy s"
  shows "promptedSession (snd (createMessageHandler env st chatId text messageId senderId)) = Some s \<and>
         sessionsCreated (snd (createMessageHandler env st chatId text messageId senderId)) = 0 \<and>
         sessionCache (fst (createMessageHandler env st chatId text messageId senderId)) chatId
           = (if notFound (promptSession env s text) then None else Some s)"
  using handler_on_resolved [OF assms(1) resolveSession_cached [OF assms(2,3)], of messageId senderId]
    assms(2)
  by simp

lemma handler_created:
  assumes "\<not> isPing env text" and "sessionCache st chatId = None"
    and "createSession env (uniqueTitle chatId (clock env)) = Succeeds (Some s)" and "truthy s"
  shows "promptedSession (snd (createMessageHandler env st chatId text messageId senderId)) = Some s \<and>
         sessionsCreated (snd (createMessageHandler env st chatId text messageId senderId)) = 1 \<and>
         sessionCache (fst (createMessageHandler env st chatId text messageId senderId)) chatId
           = (if notFound (promptSession env s text) then None else Some s)"
  using handler_on_resolved [OF assms(1) resolveSession_created [OF assms(2,3,4)], of messageId senderId]
  by simp

lemma handler_created_title:
  assumes "\<not> isPing env text" and "sessionCache st chatId = None"
    and "createSession env (uniqueTitle chatId (clock env)) = Succeeds (Some s)" and "truthy s"
  shows "CreateSession (uniqueTitle chatId (clock env))
           \<in> set (snd (createMessageHandler env st chatId text messageId senderId))"
  using assms(1) resolveSession_created [OF assms(2,3,4)]
  by (cases "promptSession env s text")
     (simp_all add: createMessageHandler_def resolveAndPrompt_def Let_def)

text \<open>
  Claim C9, as amended.  For a chat with no cached session, a message that is not a ping
  creates one backend session, caches its id and prompts it; unless that prompt comes back
  with status 404, the next message of the chat prompts the same session and creates none.
  For a chat with a cached session whose prompt comes back with status 404, the binding is
  dropped, and the next message creates one backend session, under the title made of the
  chat id and the clock, prompts the session id the backend returned for it and caches that
  id, unless this prompt comes back with status 404 in turn.  The handler does not compare
  the new id with the dropped one.
\<close>

theorem session_cached_until_invalidated:
  assumes "\<not> isPing env1 text1" and "\<not> isPing env2 text2"
  shows "(sessionCache st chatId = None \<and>
          createSession env1 (uniqueTitle chatId (clock env1)) = Succeeds (Some s1) \<and> truthy s1 \<and>
          \<not> notFound (promptSession env1 s1 text1) \<longrightarrow>
            promptedSession (snd (createMessageHandler env1 st chatId text1 mid1 sender1)) = Some s1 \<and>
            sessionsCreated (snd (createMessageHandler env1 st chatId text1 mid1 sender1)) = 1 \<and>
            sessionCache (fst (createMessageHandler env1 st chatId text1 mid1 sender1)) chatId
              = Some s1 \<and>
            promptedSession (snd (createMessageHandler env2
              (fst (createMessageHandler env1 st chatId text1 mid1 sender1))
              chatId text2 mid2 sender2)) = Some s1 \<and>
            sessionsCreated (snd (createMessageHandler env2
              (fst (createMessageHandler env1 st chatId text1 mid1 sender1))
              chatId text2 mid2 sender2)) = 0) \<and>
         (sessionCache st chatId = Some s1 \<and> truthy s1 \<and>
          notFound (promptSession env1 s1 text1) \<and>
          createSession env2 (uniqueTitle chatId (clock env2)) = Succeeds (Some s2) \<and> truthy s2 \<longrightarrow>
            sessionCache (fst (createMessageHandler env1 st chatId text1 mid1 sender1)) chatId = None \<and>
            sessionsCreated (snd (createMessageHandler env2
              (fst (createMessageHandler env1 st chatId text1 mid1 sender1))
              chatId text2 mid2 sender2)) = 1 \<and>
            CreateSession (uniqueTitle chatId (clock env2))
              \<in> set (snd (createMessageHandler env2
                    (fst (createMessageHandler env1 st chatId text1 mid1 sender1))
                    chatId text2 mid2 sender2)) \<and>
            promptedSession (snd (createMessageHandler env2
              (fst (createMessageHandler env1 st chatId text1 mid1 sender1))
              chatId text2 mid2 sender2)) = Some s2 \<and>
            sessionCache (fst (createMessageHandler env2
              (fst (createMessageHandler env1 st chatId text1 mid1 sender1))
              chatId text2 mid2 sender2)) chatId
              = (if notFound (promptSession env2 s2 text2) then None else Some s2))"
proof (intro conjI impI)
  let ?st1 = "fst (createMessageHandler env1 st chatId text1 mid1 sender1)"
  assume h: "sessionCache st chatId = None \<and>
          createSession env1 (uniqueTitle chatId (clock env1)) = Succeeds (Some s1) \<and> truthy s1 \<and>
          \<not> notFound (promptSession env1 s1 text1)"
  from h handler_created [OF assms(1), of st chatId s1 mid1 sender1]
  have first: "promptedSession (snd (createMessageHandler env1 st chatId text1 mid1 sender1)) = Some s1"
    "sessionsCreated (snd (createMessageHandler env1 st chatId text1 mid1 sender1)) = 1"
    "sessionCache ?st1 chatId = Some s1"
    by simp_all
  from h have t: "truthy s1" by simp
  from handler_cached [OF assms(2) first(3) t, of mid2 sender2]
  have second: "promptedSession (snd (createMessageHandler env2 ?st1 chatId text2 mid2 sender2)) = Some s1"
    "sessionsCreated (snd (createMessageHandler env2 ?st1 chatId text2 mid2 sender2)) = 0"
    by simp_all
  show "promptedSession (snd (createMessageHandler env1 st chatId text1 mid1 sender1)) = Some s1"
    by (rule first(1))
  show "sessionsCreated (snd (createMessageHandler env1 st chatId text1 mid1 sender1)) = 1"
    by (rule first(2))
  show "sessionCache ?st1 chatId = Some s1"
    by (rule first(3))
  show "promptedSession (snd (createMessageHandler env2 ?st1 chatId text2 mid2 sender2)) = Some s1"
    by (rule second(1))
  show "sessionsCreated (snd (createMessageHandler env2 ?st1 chatId text2 mid2 sender2)) = 0"
    by (rule second(2))
next
  let ?st1 = "fst (createMessageHandler env1 st chatId text1 mid1 sender1)"
  assume h: "sessionCache st chatId = Some s1 \<and> truthy s1 \<and>
          notFound (promptSession env1 s1 text1) \<and>
          createSession env2 (uniqueTitle chatId (clock env2)) = Succeeds (Some s2) \<and> truthy s2"
  from h handler_cached [OF assms(1), of st chatId s1 mid1 sender1]
  have dropped: "sessionCache ?st1 chatId = None" by simp
  from h handler_created [OF assms(2) dropped, of s2 mid2 sender2]
  have second: "sessionsCreated (snd (createMessageHandler env2 ?st1 chatId text2 mid2 sender2)) = 1"
    "promptedSession (snd (createMessageHandler env2 ?st1 chatId text2 mid2 sender2)) = Some s2"
    "sessionCache (fst (createMessageHandler env2 ?st1 chatId text2 mid2 sender2)) chatId
       = (if notFound (promptSession env2 s2 text2) then None else Some s2)"
    by simp_all
  from h have "createSession env2 (uniqueTitle chatId (clock env2)) = Succeeds (Some s2)"
    and "truthy s2" by simp_all
  from handler_created_title [OF assms(2) dropped this, of mid2 sender2]
  have title: "CreateSession (uniqueTitle chatId (clock env2))
                 \<in> set (snd (createMessageHandler env2 ?st1 chatId text2 mid2 sender2))" .
  show "sessionCache ?st1 chatId = None" by (rule dropped)
  show "sessionsCreated (snd (createMessageHandler env2 ?st1 chatId text2 mid2 sender2)) = 1"
    by (rule second(1))
  show "CreateSession (uniqueTitle chatId (clock env2))
          \<in> set (snd (createMessageHandler env2 ?st1 chatId text2 mid2 sender2))"
    by (rule title)
  show "promptedSession (snd (createMessageHandler env2 ?st1 chatId text2 mid2 sender2)) = Some s2"
    by (rule second(2))
  show "sessionCache (fst (createMessageHandler env2 ?st1 chatId text2 mid2 sender2)) chatId
          = (if notFound (promptSession env2 s2 text2) then None else Some s2)"
    by (rule second(3))
qed

theorem session_cached_until_invalidated_witness:
  "promptedSession (snd (createMessageHandler
      \<lparr>isPing = (\<lambda>t. t = ''ping''), clock = ''10:00:00'', addReaction = (\<lambda>m. Some ''rx''),
        createSession = (\<lambda>t. Succeeds (Some ''ses_1'')), promptSession = (\<lambda>s t. Succeeds ())\<rparr>
      \<lparr>sessionCache = Map.empty, sessionToFeishuMap = Map.empty\<rparr>
      ''oc_12345'' ''hello'' ''om_1'' ''ou_1'')) = Some ''ses_1'' \<and>
   promptedSession (snd (createMessageHandler
      \<lparr>isPing = (\<lambda>t. t = ''ping''), clock = ''10:00:05'', addReaction = (\<lambda>m. Some ''rx''),
        createSession = (\<lambda>t. Succeeds (Some ''ses_2'')), promptSession = (\<lambda>s t. Succeeds ())\<rparr>
      (fst (createMessageHandler
        \<lparr>isPing = (\<lambda>t. t = ''ping''), clock = ''10:00:00'', addReaction = (\<lambda>m. Some ''rx''),
          createSession = (\<lambda>t. Succeeds (Some ''ses_1'')), promptSession = (\<lambda>s t. Succeeds ())\<rparr>
        \<lparr>sessionCache = Map.empty, sessionToFeishuMap = Map.empty\<rparr>
        ''oc_12345'' ''hello'' ''om_1'' ''ou_1''))
      ''oc_12345'' ''again'' ''om_2'' ''ou_1'')) = Some ''ses_1'' \<and>
   promptedSession (snd (createMessageHandler
      \<lparr>isPing = (\<lambda>t. t = ''ping''), clock = ''10:00:05'', addReaction = (\<lambda>m. Some ''rx''),
        createSession = (\<lambda>t. Succeeds (Some ''ses_2'')), promptSession = (\<lambda>s t. Succeeds ())\<rparr>
      (fst (createMessageHandler
        \<lparr>isPing = (\<lambda>t. t = ''ping''), clock = ''10:00:00'', addReaction = (\<lambda>m. Some ''rx''),
          createSession = (\<lambda>t. Succeeds (Some ''ses_1'')),
          promptSession = (\<lambda>s t. Fails (Some 404) ''Not Found'')\<rparr>
        \<lparr>sessionCache = [''oc_12345'' \<mapsto> ''ses_1''], sessionToFeishuMap = Map.empty\<rparr>
        ''oc_12345'' ''hello'' ''om_1'' ''ou_1''))
      ''oc_12345'' ''again'' ''om_2'' ''ou_1'')) = Some ''ses_2''"
proof -
  let ?ok1 = "\<lparr>isPing = (\<lambda>t. t = ''ping''), clock = ''10:00:00'', addReaction = (\<lambda>m. Some ''rx''),
        createSession = (\<lambda>t. Succeeds (Some ''ses_1'')), promptSession = (\<lambda>s t. Succeeds ())\<rparr>"
  let ?ok2 = "\<lparr>isPing = (\<lambda>t. t = ''ping''), clock = ''10:00:05'', addReaction = (\<lambda>m. Some ''rx''),
        createSession = (\<lambda>t. Succeeds (Some ''ses_2'')), promptSession = (\<lambda>s t. Succeeds ())\<rparr>"
  let ?gone = "\<lparr>isPing = (\<lambda>t. t = ''ping''), clock = ''10:00:00'', addReaction = (\<lambda>m. Some ''rx''),
          createSession = (\<lambda>t. Succeeds (Some ''ses_1'')),
          promptSession = (\<lambda>s t. Fails (Some 404) ''Not Found'')\<rparr>"
  let ?empty = "\<lparr>sessionCache = Map.empty, sessionToFeishuMap = Map.empty\<rparr>"
  let ?bound = "\<lparr>sessionCache = [''oc_12345'' \<mapsto> ''ses_1''], sessionToFeishuMap = Map.empty\<rparr>"
  have p1: "\<not> isPing ?ok1 ''hello''" and p2: "\<not> isPing ?ok2 ''again''"
    and p3: "\<not> isPing ?gone ''hello''"
    by simp_all
  have a: "sessionCache ?empty ''oc_12345'' = None \<and>
           createSession ?ok1 (uniqueTitle ''oc_12345'' (clock ?ok1)) = Succeeds (Some ''ses_1'') \<and>
           truthy ''ses_1'' \<and> \<not> notFound (promptSession ?ok1 ''ses_1'' ''hello'')"
    by (simp add: truthy_def notFound_def)
  have b: "sessionCache ?bound ''oc_12345'' = Some ''ses_1'' \<and> truthy ''ses_1'' \<and>
           notFound (promptSession ?gone ''ses_1'' ''hello'') \<and>
           createSession ?ok2 (uniqueTitle ''oc_12345'' (clock ?ok2)) = Succeeds (Some ''ses_2'') \<and>
           truthy ''ses_2''"
    by (simp add: truthy_def notFound_def)
  note A = session_cached_until_invalidated [OF p1 p2,
      of ?empty "''oc_12345''" "''ses_1''" "''om_1''" "''ou_1''" "''om_2''" "''ou_1''" "''ses_2''"]
  note B = session_cached_until_invalidated [OF p3 p2,
      of ?bound "''oc_12345''" "''ses_1''" "''om_1''" "''ou_1''" "''om_2''" "''ou_1''" "''ses_2''"]
  from A a have
    "promptedSession (snd (createMessageHandler ?ok1 ?empty ''oc_12345'' ''hello'' ''om_1'' ''ou_1''))
       = Some ''ses_1''"
    "promptedSession (snd (createMessageHandler ?ok2
        (fst (createMessageHandler ?ok1 ?empty ''oc_12345'' ''hello'' ''om_1'' ''ou_1''))
        ''oc_12345'' ''again'' ''om_2'' ''ou_1'')) = Some ''ses_1''"
    by blast+
  moreover from B b have
    "promptedSession (snd (createMessageHandler ?ok2
        (fst (createMessageHandler ?gone ?bound ''oc_12345'' ''hello'' ''om_1'' ''ou_1''))
        ''oc_12345'' ''again'' ''om_2'' ''ou_1'')) = Some ''ses_2''"
    by blast
  ultimately show ?thesis by blast
qed

text \<open>
  The chat \<open>oc_12345\<close> is bound to session \<open>ses_1\<close>; the prompt comes back with status
  404 and the binding is dropped; for the next message the backend creates a session and
  reports the id \<open>ses_1\<close> for it.  One session is created, and the session id resolved
  after the invalidation is \<open>ses_1\<close>, the id resolved before it.
\<close>

theorem session_same_id_counterexample:
  "sessionCache (fst (createMessageHandler
      \<lparr>isPing = (\<lambda>t. t = ''ping''), clock = ''10:00:00'', addReaction = (\<lambda>m. Some ''rx''),
        createSession = (\<lambda>t. Succeeds (Some ''ses_1'')),
        promptSession = (\<lambda>s t. Fails (Some 404) ''Not Found'')\<rparr>
      \<lparr>sessionCache = [''oc_12345'' \<mapsto> ''ses_1''], sessionToFeishuMap = Map.empty\<rparr>
      ''oc_12345'' ''hello'' ''om_1'' ''ou_1'')) ''oc_12345'' = None \<and>
   sessionsCreated (snd (createMessageHandler
      \<lparr>isPing = (\<lambda>t. t = ''ping''), clock = ''10:00:05'', addReaction = (\<lambda>m. Some ''rx''),
        createSession = (\<lambda>t. Succeeds (Some ''ses_1'')), promptSession = (\<lambda>s t. Succeeds ())\<rparr>
      (fst (createMessageHandler
        \<lparr>isPing = (\<lambda>t. t = ''ping''), clock = ''10:00:00'', addReaction = (\<lambda>m. Some ''rx''),
          createSession = (\<lambda>t. Succeeds (Some ''ses_1'')),
          promptSession = (\<lambda>s t. Fails (Some 404) ''Not Found'')\<rparr>
        \<lparr>sessionCache = [''oc_12345'' \<mapsto> ''ses_1''], sessionToFeishuMap = Map.empty\<rparr>
        ''oc_12345'' ''hello'' ''om_1'' ''ou_1''))
      ''oc_12345'' ''again'' ''om_2'' ''ou_1'')) = 1 \<and>
   promptedSession (snd (createMessageHandler
      \<lparr>isPing = (\<lambda>t. t = ''ping''), clock = ''10:00:05'', addReaction = (\<lambda>m. Some ''rx''),
        createSession = (\<lambda>t. Succeeds (Some ''ses_1'')), promptSession = (\<lambda>s t. Succeeds ())\<rparr>
      (fst (createMessageHandler
        \<lparr>isPing = (\<lambda>t. t = ''ping''), clock = ''10:00:00'', addReaction = (\<lambda>m. Some ''rx''),
          createSession = (\<lambda>t. Succeeds (Some ''ses_1'')),
          promptSession = (\<lambda>s t. Fails (Some 404) ''Not Found'')\<rparr>
        \<lparr>sessionCache = [''oc_12345'' \<mapsto> ''ses_1''], sessionToFeishuMap = Map.empty\<rparr>
        ''oc_12345'' ''hello'' ''om_1'' ''ou_1''))
      ''oc_12345'' ''again'' ''om_2'' ''ou_1'')) = Some ''ses_1''"
proof -
  let ?gone = "\<lparr>isPing = (\<lambda>t. t = ''ping''), clock = ''10:00:00'', addReaction = (\<lambda>m. Some ''rx''),
          createSession = (\<lambda>t. Succeeds (Some ''ses_1'')),
          promptSession = (\<lambda>s t. Fails (Some 404) ''Not Found'')\<rparr>"
  let ?same = "\<lparr>isPing = (\<lambda>t. t = ''ping''), clock = ''10:00:05'', addReaction = (\<lambda>m. Some ''rx''),
        createSession = (\<lambda>t. Succeeds (Some ''ses_1'')), promptSession = (\<lambda>s t. Succeeds ())\<rparr>"
  let ?bound = "\<lparr>sessionCache = [''oc_12345'' \<mapsto> ''ses_1''], sessionToFeishuMap = Map.empty\<rparr>"
  let ?st1 = "fst (createMessageHandler ?gone ?bound ''oc_12345'' ''hello'' ''om_1'' ''ou_1'')"
  have p1: "\<not> isPing ?gone ''hello''" and p2: "\<not> isPing ?same ''again''" by simp_all
  have b: "sessionCache ?bound ''oc_12345'' = Some ''ses_1''" by simp
  have t: "truthy ''ses_1''" by (simp add: truthy_def)
  have nf: "notFound (promptSession ?gone ''ses_1'' ''hello'')" by (simp add: notFound_def)
  from handler_cached [OF p1 b t, of "''om_1''" "''ou_1''"] nf
  have dropped: "sessionCache ?st1 ''oc_12345'' = None" by simp
  have c: "createSession ?same (uniqueTitle ''oc_12345'' (clock ?same)) = Succeeds (Some ''ses_1'')"
    by simp
  from handler_created [OF p2 dropped c t, of "''om_2''" "''ou_1''"]
  have "sessionsCreated (snd (createMessageHandler ?same ?st1 ''oc_12345'' ''again'' ''om_2'' ''ou_1'')) = 1"
    and "promptedSession (snd (createMessageHandler ?same ?st1 ''oc_12345'' ''again'' ''om_2'' ''ou_1''))
           = Some ''ses_1''"
    by simp_all
  with dropped show ?thesis by blast
qed

subsection \<open>Conversation queue\<close>

lemma await_catch_swallow:
  "await (catch_swallow p) = (if p = Pending then Suspends else Continues)"
  by (cases p) (simp_all add: await_def catch_swallow_def)

lemma queue_step_Resume:
  "queue_step is_ping s (Resume k) =
     (if k < length (tasks s) \<and> phase (tasks s ! k) = Waiting \<and>
         previousTask s (tasks s ! k) \<noteq> Pending
      then Some (s\<lparr>tasks := (tasks s)[k := (tasks s ! k)\<lparr>phase := Processing\<rparr>]\<rparr>)
      else None)"
  by (simp add: await_catch_swallow)

lemma task_promise_Pending: "(task_promise t \<noteq> Pending) = task_settled t"
  by (cases "phase t") (auto simp: task_promise_def task_settled_def)

lemma set_phase_chatId:
  "task_chatId (ts[k := (ts ! k)\<lparr>phase := p\<rparr>] ! m) = task_chatId (ts ! m)"
proof (cases "k < length ts")
  case True
  then show ?thesis by (cases "m = k") simp_all
next
  case False
  then show ?thesis by (simp add: list_update_beyond)
qed

lemma set_phase_previous:
  "previous (ts[k := (ts ! k)\<lparr>phase := p\<rparr>] ! m) = previous (ts ! m)"
proof (cases "k < length ts")
  case True
  then show ?thesis by (cases "m = k") simp_all
next
  case False
  then show ?thesis by (simp add: list_update_beyond)
qed

lemma set_phase_phase:
  "phase (ts[k := (ts ! k)\<lparr>phase := p\<rparr>] ! m) =
     (if m = k \<and> k < length ts then p else phase (ts ! m))"
proof (cases "k < length ts")
  case True
  then show ?thesis by (cases "m = k") simp_all
next
  case False
  then show ?thesis by (simp add: list_update_beyond)
qed

lemma chain_inv_set_phase:
  assumes "chain_inv s"
  shows "chain_inv (s\<lparr>tasks := (tasks s)[k := (tasks s ! k)\<lparr>phase := p\<rparr>]\<rparr>)"
  using assms unfolding chain_inv_def
  by (simp add: set_phase_chatId set_phase_previous)

lemma chain_inv_Arrive:
  assumes "chain_inv s"
  shows "chain_inv \<lparr>chatQueues = (chatQueues s)(c \<mapsto> length (tasks s)),
           tasks = tasks s @ [\<lparr>task_chatId = c, task_messageId = mid,
                                previous = chatQueues s c, phase = Waiting\<rparr>]\<rparr>"
proof -
  let ?n = "length (tasks s)"
  let ?t = "\<lparr>task_chatId = c, task_messageId = mid, previous = chatQueues s c, phase = Waiting\<rparr>"
  let ?ts = "tasks s @ [?t]"
  have old: "\<And>m. m < ?n \<Longrightarrow> ?ts ! m = tasks s ! m" by (simp add: nth_append)
  have new: "?ts ! ?n = ?t" by simp
  have lt: "\<And>m. m < length ?ts \<longleftrightarrow> m < ?n \<or> m = ?n" by auto
  from assms have
    q_some: "\<And>d j. chatQueues s d = Some j \<Longrightarrow>
        j < ?n \<and> task_chatId (tasks s ! j) = d \<and>
        (\<forall>m < ?n. task_chatId (tasks s ! m) = d \<longrightarrow> m \<le> j)"
    and q_none: "\<And>d. chatQueues s d = None \<Longrightarrow> (\<forall>m < ?n. task_chatId (tasks s ! m) \<noteq> d)"
    and p_some: "\<And>k j. k < ?n \<Longrightarrow> previous (tasks s ! k) = Some j \<Longrightarrow>
        j < k \<and> task_chatId (tasks s ! j) = task_chatId (tasks s ! k) \<and>
        (\<forall>m < k. task_chatId (tasks s ! m) = task_chatId (tasks s ! k) \<longrightarrow> m \<le> j)"
    and p_none: "\<And>k. k < ?n \<Longrightarrow> previous (tasks s ! k) = None \<Longrightarrow>
        (\<forall>m < k. task_chatId (tasks s ! m) \<noteq> task_chatId (tasks s ! k))"
    unfolding chain_inv_def by blast+
  have a: "\<forall>d j. ((chatQueues s)(c \<mapsto> ?n)) d = Some j \<longrightarrow>
        j < length ?ts \<and> task_chatId (?ts ! j) = d \<and>
        (\<forall>m < length ?ts. task_chatId (?ts ! m) = d \<longrightarrow> m \<le> j)"
  proof (intro allI impI)
    fix d j assume h: "((chatQueues s)(c \<mapsto> ?n)) d = Some j"
    show "j < length ?ts \<and> task_chatId (?ts ! j) = d \<and>
        (\<forall>m < length ?ts. task_chatId (?ts ! m) = d \<longrightarrow> m \<le> j)"
    proof (cases "d = c")
      case True
      with h have "j = ?n" by simp
      with True show ?thesis by auto
    next
      case False
      with h have "chatQueues s d = Some j" by simp
      from q_some [OF this] False show ?thesis
        by (auto simp: nth_append)
    qed
  qed
  have b: "\<forall>d. ((chatQueues s)(c \<mapsto> ?n)) d = None \<longrightarrow>
        (\<forall>m < length ?ts. task_chatId (?ts ! m) \<noteq> d)"
  proof (intro allI impI)
    fix d m assume h: "((chatQueues s)(c \<mapsto> ?n)) d = None" and m: "m < length ?ts"
    from h have dc: "d \<noteq> c" and "chatQueues s d = None" by (auto split: if_splits)
    from q_none [OF this(2)] dc m show "task_chatId (?ts ! m) \<noteq> d"
      by (auto simp: nth_append)
  qed
  have c': "\<forall>k < length ?ts. \<forall>j. previous (?ts ! k) = Some j \<longrightarrow>
        j < k \<and> task_chatId (?ts ! j) = task_chatId (?ts ! k) \<and>
        (\<forall>m < k. task_chatId (?ts ! m) = task_chatId (?ts ! k) \<longrightarrow> m \<le> j)"
  proof (intro allI impI)
    fix k j assume k: "k < length ?ts" and h: "previous (?ts ! k) = Some j"
    show "j < k \<and> task_chatId (?ts ! j) = task_chatId (?ts ! k) \<and>
        (\<forall>m < k. task_chatId (?ts ! m) = task_chatId (?ts ! k) \<longrightarrow> m \<le> j)"
    proof (cases "k < ?n")
      case True
      with h have "previous (tasks s ! k) = Some j" by (simp add: nth_append)
      from p_some [OF True this] True show ?thesis by (auto simp: nth_append)
    next
      case False
      with k have kn: "k = ?n" by simp
      with h have "chatQueues s c = Some j" by simp
      from q_some [OF this] kn show ?thesis by (auto simp: nth_append)
    qed
  qed
  have d: "\<forall>k < length ?ts. previous (?ts ! k) = None \<longrightarrow>
        (\<forall>m < k. task_chatId (?ts ! m) \<noteq> task_chatId (?ts ! k))"
  proof (intro allI impI)
    fix k m assume k: "k < length ?ts" and h: "previous (?ts ! k) = None" and m: "m < k"
    show "task_chatId (?ts ! m) \<noteq> task_chatId (?ts ! k)"
    proof (cases "k < ?n")
      case True
      with h have "previous (tasks s ! k) = None" by (simp add: nth_append)
      from p_none [OF True this] True m show ?thesis by (auto simp: nth_append)
    next
      case False
      with k have kn: "k = ?n" by simp
      with h have "chatQueues s c = None" by simp
      from q_none [OF this] kn m show ?thesis by (auto simp: nth_append)
    qed
  qed
  from a b c' d show ?thesis unfolding chain_inv_def by simp
qed

lemma serial_Arrive:
  assumes "serial s"
  shows "serial \<lparr>chatQueues = (chatQueues s)(c \<mapsto> length (tasks s)),
           tasks = tasks s @ [\<lparr>task_chatId = c, task_messageId = mid,
                                previous = chatQueues s c, phase = Waiting\<rparr>]\<rparr>"
  unfolding serial_def
proof (intro allI impI)
  let ?n = "length (tasks s)"
  let ?t = "\<lparr>task_chatId = c, task_messageId = mid, previous = chatQueues s c, phase = Waiting\<rparr>"
  let ?s' = "\<lparr>chatQueues = (chatQueues s)(c \<mapsto> ?n), tasks = tasks s @ [?t]\<rparr>"
  fix i j
  assume h: "i < j \<and> j < length (tasks ?s') \<and>
             task_chatId (tasks ?s' ! i) = task_chatId (tasks ?s' ! j) \<and>
             phase (tasks ?s' ! j) \<noteq> Waiting"
  then have "j \<noteq> ?n" by auto
  with h have j: "j < ?n" and i: "i < ?n" by auto
  with h have "i < j \<and> j < ?n \<and> task_chatId (tasks s ! i) = task_chatId (tasks s ! j) \<and>
               phase (tasks s ! j) \<noteq> Waiting"
    by (simp add: nth_append)
  with assms have "task_settled (tasks s ! i)" unfolding serial_def by blast
  with i show "task_settled (tasks ?s' ! i)" by (simp add: nth_append)
qed

lemma previousTask_settled:
  "(previousTask s t \<noteq> Pending) =
     (case previous t of None \<Rightarrow> True
      | Some j \<Rightarrow> j < length (tasks s) \<and> task_settled (tasks s ! j))"
  by (simp add: previousTask_def task_promise_Pending split: option.splits)

lemma task_settled_set_phase:
  "task_settled (ts[k := (ts ! k)\<lparr>phase := p\<rparr>] ! m) =
     (if m = k \<and> k < length ts then p = Returned_ok \<or> p = Thrown else task_settled (ts ! m))"
  by (simp add: task_settled_def set_phase_phase)

lemma earlier_settled_at_resume:
  assumes "chain_inv s" and "serial s" and "k < length (tasks s)"
    and "previousTask s (tasks s ! k) \<noteq> Pending"
    and "i < k" and "task_chatId (tasks s ! i) = task_chatId (tasks s ! k)"
  shows "task_settled (tasks s ! i)"
proof (cases "previous (tasks s ! k)")
  case None
  with assms(1,3) have "\<forall>m < k. task_chatId (tasks s ! m) \<noteq> task_chatId (tasks s ! k)"
    unfolding chain_inv_def by blast
  with assms(5,6) show ?thesis by blast
next
  case (Some j)
  with assms(4) have st: "task_settled (tasks s ! j)" by (simp add: previousTask_settled)
  from Some assms(1,3) have jk: "j < k"
    and same: "task_chatId (tasks s ! j) = task_chatId (tasks s ! k)"
    and last: "\<forall>m < k. task_chatId (tasks s ! m) = task_chatId (tasks s ! k) \<longrightarrow> m \<le> j"
    unfolding chain_inv_def by blast+
  from last assms(5,6) have "i \<le> j" by blast
  show ?thesis
  proof (cases "i = j")
    case True
    with st show ?thesis by simp
  next
    case False
    with \<open>i \<le> j\<close> have "i < j" by simp
    moreover have "j < length (tasks s)" using jk assms(3) by simp
    moreover have "task_chatId (tasks s ! i) = task_chatId (tasks s ! j)"
      using same assms(6) by simp
    moreover have "phase (tasks s ! j) \<noteq> Waiting" using st by (auto simp: task_settled_def)
    ultimately show ?thesis using assms(2) unfolding serial_def by blast
  qed
qed

lemma serial_Resume:
  assumes "chain_inv s" and "serial s" and "k < length (tasks s)"
    and "phase (tasks s ! k) = Waiting" and "previousTask s (tasks s ! k) \<noteq> Pending"
  shows "serial (s\<lparr>tasks := (tasks s)[k := (tasks s ! k)\<lparr>phase := Processing\<rparr>]\<rparr>)"
  unfolding serial_def
proof (intro allI impI)
  let ?ts = "(tasks s)[k := (tasks s ! k)\<lparr>phase := Processing\<rparr>]"
  let ?s' = "s\<lparr>tasks := ?ts\<rparr>"
  fix i j
  assume h: "i < j \<and> j < length (tasks ?s') \<and>
             task_chatId (tasks ?s' ! i) = task_chatId (tasks ?s' ! j) \<and>
             phase (tasks ?s' ! j) \<noteq> Waiting"
  then have ij: "i < j" and j: "j < length (tasks s)"
    and same: "task_chatId (tasks s ! i) = task_chatId (tasks s ! j)"
    by (simp_all add: set_phase_chatId)
  have old: "task_settled (tasks s ! i)"
  proof (cases "j = k")
    case True
    with earlier_settled_at_resume [OF assms(1,2,3,5), of i] ij same show ?thesis by simp
  next
    case False
    with h have "phase (tasks s ! j) \<noteq> Waiting" by (simp add: set_phase_phase)
    with ij j same assms(2) show ?thesis unfolding serial_def by blast
  qed
  with assms(4) have "i \<noteq> k" by (auto simp: task_settled_def)
  with old show "task_settled (tasks ?s' ! i)" by (simp add: task_settled_set_phase)
qed

lemma serial_Finish:
  assumes "serial s" and "k < length (tasks s)" and "phase (tasks s ! k) = Processing"
    and "p = Returned_ok \<or> p = Thrown"
  shows "serial (s\<lparr>tasks := (tasks s)[k := (tasks s ! k)\<lparr>phase := p\<rparr>]\<rparr>)"
  unfolding serial_def
proof (intro allI impI)
  let ?ts = "(tasks s)[k := (tasks s ! k)\<lparr>phase := p\<rparr>]"
  let ?s' = "s\<lparr>tasks := ?ts\<rparr>"
  fix i j
  assume h: "i < j \<and> j < length (tasks ?s') \<and>
             task_chatId (tasks ?s' ! i) = task_chatId (tasks ?s' ! j) \<and>
             phase (tasks ?s' ! j) \<noteq> Waiting"
  then have ij: "i < j" and j: "j < length (tasks s)"
    and same: "task_chatId (tasks s ! i) = task_chatId (tasks s ! j)"
    by (simp_all add: set_phase_chatId)
  have "phase (tasks s ! j) \<noteq> Waiting"
  proof (cases "j = k")
    case True
    with assms(3) show ?thesis by simp
  next
    case False
    with h show ?thesis by (simp add: set_phase_phase)
  qed
  with ij j same assms(1) have "task_settled (tasks s ! i)" unfolding serial_def by blast
  then show "task_settled (tasks ?s' ! i)"
    using assms(4) by (auto simp: task_settled_set_phase)
qed

lemma queue_step_inv:
  assumes "chain_inv s \<and> serial s" and "queue_step is_ping s e = Some s'"
  shows "chain_inv s' \<and> serial s'"
proof (cases e)
  case (Arrive c msg mid)
  show ?thesis
  proof (cases "is_ping msg")
    case True
    with Arrive assms show ?thesis by simp
  next
    case False
    with Arrive assms(2) have "s' = \<lparr>chatQueues = (chatQueues s)(c \<mapsto> length (tasks s)),
           tasks = tasks s @ [\<lparr>task_chatId = c, task_messageId = mid,
                                previous = chatQueues s c, phase = Waiting\<rparr>]\<rparr>"
      by (simp add: Let_def)
    with assms(1) chain_inv_Arrive [of s c mid] serial_Arrive [of s c mid] show ?thesis by simp
  qed
next
  case (Resume k)
  with assms(2) have k: "k < length (tasks s)" "phase (tasks s ! k) = Waiting"
    "previousTask s (tasks s ! k) \<noteq> Pending"
    and s': "s' = s\<lparr>tasks := (tasks s)[k := (tasks s ! k)\<lparr>phase := Processing\<rparr>]\<rparr>"
    by (auto simp: queue_step_Resume simp del: queue_step.simps split: if_splits)
  from assms(1) chain_inv_set_phase [of s k Processing] serial_Resume [OF _ _ k] s'
  show ?thesis by simp
next
  case (Finish k ok)
  with assms(2) have k: "k < length (tasks s)" "phase (tasks s ! k) = Processing"
    and s': "s' = s\<lparr>tasks := (tasks s)[k := (tasks s ! k)\<lparr>phase :=
                (if ok then Returned_ok else Thrown)\<rparr>]\<rparr>"
    by (auto split: if_splits)
  have "(if ok then Returned_ok else Thrown) = Returned_ok \<or>
        (if ok then Returned_ok else Thrown) = Thrown" by simp
  from assms(1) chain_inv_set_phase [of s k "if ok then Returned_ok else Thrown"]
    serial_Finish [OF _ k this] s'
  show ?thesis by simp
qed

lemma queue_run_inv:
  "chain_inv s \<and> serial s \<Longrightarrow> queue_run is_ping s events = Some s' \<Longrightarrow>
   chain_inv s' \<and> serial s'"
proof (induction events arbitrary: s)
  case Nil
  then show ?case by simp
next
  case (Cons e events)
  from Cons.prems(2) obtain s1 where step: "queue_step is_ping s e = Some s1"
    and rest: "queue_run is_ping s1 events = Some s'"
    by (auto split: option.splits)
  from queue_step_inv [OF Cons.prems(1) step] have "chain_inv s1 \<and> serial s1" .
  from Cons.IH [OF this rest] show ?case .
qed

lemma queue_init_inv: "chain_inv queue_init \<and> serial queue_init"
  by (simp add: chain_inv_def serial_def queue_init_def)

text \<open>
  Claim C1.  In every state the queued handler reaches from the empty queue, for two tasks
  of one conversation, the earlier enqueued at index \<open>i\<close> and the later at \<open>j\<close>: if
  the later has left its first \<open>await\<close> then the earlier has settled, so the two are
  never in their processing bodies together.  A resumption of task \<open>k\<close> that takes place
  puts \<open>k\<close> into its processing body, never fails it, and finds every earlier task of the
  conversation settled.  And a waiting task whose predecessor has settled, by returning or
  by throwing, can be resumed: a rejection of the earlier task does not block the later
  one.
\<close>

theorem conversation_queue_serial:
  assumes "queue_run is_ping queue_init events = Some s"
  shows "(\<forall>i j. i < j \<and> j < length (tasks s) \<and>
                task_chatId (tasks s ! i) = task_chatId (tasks s ! j) \<longrightarrow>
            (phase (tasks s ! j) \<noteq> Waiting \<longrightarrow> task_settled (tasks s ! i)) \<and>
            \<not> (phase (tasks s ! i) = Processing \<and> phase (tasks s ! j) = Processing)) \<and>
         (\<forall>k s'. queue_step is_ping s (Resume k) = Some s' \<longrightarrow>
            phase (tasks s' ! k) = Processing \<and>
            (\<forall>i < k. task_chatId (tasks s ! i) = task_chatId (tasks s ! k) \<longrightarrow>
               task_settled (tasks s ! i))) \<and>
         (\<forall>k j. k < length (tasks s) \<and> phase (tasks s ! k) = Waiting \<and>
                previous (tasks s ! k) = Some j \<and> task_settled (tasks s ! j) \<longrightarrow>
            queue_step is_ping s (Resume k)
              = Some (s\<lparr>tasks := (tasks s)[k := (tasks s ! k)\<lparr>phase := Processing\<rparr>]\<rparr>))"
proof -
  from queue_run_inv [OF queue_init_inv assms] have chain: "chain_inv s" and ser: "serial s"
    by simp_all
  have a: "\<forall>i j. i < j \<and> j < length (tasks s) \<and>
                task_chatId (tasks s ! i) = task_chatId (tasks s ! j) \<longrightarrow>
            (phase (tasks s ! j) \<noteq> Waiting \<longrightarrow> task_settled (tasks s ! i)) \<and>
            \<not> (phase (tasks s ! i) = Processing \<and> phase (tasks s ! j) = Processing)"
  proof (intro allI impI)
    fix i j
    assume h: "i < j \<and> j < length (tasks s) \<and>
               task_chatId (tasks s ! i) = task_chatId (tasks s ! j)"
    have first: "phase (tasks s ! j) \<noteq> Waiting \<longrightarrow> task_settled (tasks s ! i)"
      using h ser unfolding serial_def by blast
    then have "\<not> (phase (tasks s ! i) = Processing \<and> phase (tasks s ! j) = Processing)"
      by (auto simp: task_settled_def)
    with first
    show "(phase (tasks s ! j) \<noteq> Waiting \<longrightarrow> task_settled (tasks s ! i)) \<and>
          \<not> (phase (tasks s ! i) = Processing \<and> phase (tasks s ! j) = Processing)"
      by simp
  qed
  have b: "\<forall>k s'. queue_step is_ping s (Resume k) = Some s' \<longrightarrow>
            phase (tasks s' ! k) = Processing \<and>
            (\<forall>i < k. task_chatId (tasks s ! i) = task_chatId (tasks s ! k) \<longrightarrow>
               task_settled (tasks s ! i))"
  proof (intro allI impI)
    fix k s'
    assume "queue_step is_ping s (Resume k) = Some s'"
    then have k: "k < length (tasks s)" "previousTask s (tasks s ! k) \<noteq> Pending"
      and s': "s' = s\<lparr>tasks := (tasks s)[k := (tasks s ! k)\<lparr>phase := Processing\<rparr>]\<rparr>"
      by (auto simp: queue_step_Resume simp del: queue_step.simps split: if_splits)
    have "phase (tasks s' ! k) = Processing" using s' k(1) by simp
    moreover have "\<forall>i < k. task_chatId (tasks s ! i) = task_chatId (tasks s ! k) \<longrightarrow>
               task_settled (tasks s ! i)"
      using earlier_settled_at_resume [OF chain ser k] by blast
    ultimately show "phase (tasks s' ! k) = Processing \<and>
            (\<forall>i < k. task_chatId (tasks s ! i) = task_chatId (tasks s ! k) \<longrightarrow>
               task_settled (tasks s ! i))"
      by simp
  qed
  have c: "\<forall>k j. k < length (tasks s) \<and> phase (tasks s ! k) = Waiting \<and>
                previous (tasks s ! k) = Some j \<and> task_settled (tasks s ! j) \<longrightarrow>
            queue_step is_ping s (Resume k)
              = Some (s\<lparr>tasks := (tasks s)[k := (tasks s ! k)\<lparr>phase := Processing\<rparr>]\<rparr>)"
  proof (intro allI impI)
    fix k j
    assume h: "k < length (tasks s) \<and> phase (tasks s ! k) = Waiting \<and>
               previous (tasks s ! k) = Some j \<and> task_settled (tasks s ! j)"
    with chain have "j < k" unfolding chain_inv_def by blast
    with h have "previousTask s (tasks s ! k) \<noteq> Pending"
      by (simp add: previousTask_settled)
    with h show "queue_step is_ping s (Resume k)
              = Some (s\<lparr>tasks := (tasks s)[k := (tasks s ! k)\<lparr>phase := Processing\<rparr>]\<rparr>)"
      by (simp add: queue_step_Resume del: queue_step.simps)
  qed
  show ?thesis by (rule conjI [OF a conjI [OF b c]])
qed

lemmas queue_eval =
  queue_init_def Let_def await_def catch_swallow_def previousTask_def task_promise_def
  task_settled_def

theorem conversation_queue_serial_witness:
  "queue_run (\<lambda>t. t = ''ping'') queue_init
     [Arrive ''A'' ''hi'' ''m1'', Arrive ''A'' ''yo'' ''m2'', Resume 0, Finish 0 False]
     = Some \<lparr>chatQueues = [''A'' \<mapsto> 1],
             tasks = [\<lparr>task_chatId = ''A'', task_messageId = ''m1'', previous = None,
                        phase = Thrown\<rparr>,
                      \<lparr>task_chatId = ''A'', task_messageId = ''m2'', previous = Some 0,
                        phase = Waiting\<rparr>]\<rparr> \<and>
   queue_step (\<lambda>t. t = ''ping'')
     \<lparr>chatQueues = [''A'' \<mapsto> 1],
       tasks = [\<lparr>task_chatId = ''A'', task_messageId = ''m1'', previous = None, phase = Thrown\<rparr>,
                \<lparr>task_chatId = ''A'', task_messageId = ''m2'', previous = Some 0,
                  phase = Waiting\<rparr>]\<rparr> (Resume 1)
     = Some \<lparr>chatQueues = [''A'' \<mapsto> 1],
             tasks = [\<lparr>task_chatId = ''A'', task_messageId = ''m1'', previous = None,
                        phase = Thrown\<rparr>,
                      \<lparr>task_chatId = ''A'', task_messageId = ''m2'', previous = Some 0,
                        phase = Processing\<rparr>]\<rparr> \<and>
   queue_run (\<lambda>t. t = ''ping'') queue_init
     [Arrive ''A'' ''hi'' ''m1'', Arrive ''A'' ''yo'' ''m2'', Resume 0, Resume 1] = None"
proof -
  let ?S = "\<lparr>chatQueues = [''A'' \<mapsto> (1::nat)],
             tasks = [\<lparr>task_chatId = ''A'', task_messageId = ''m1'', previous = None,
                        phase = Thrown\<rparr>,
                      \<lparr>task_chatId = ''A'', task_messageId = ''m2'', previous = Some 0,
                        phase = Waiting\<rparr>]\<rparr>"
  have run: "queue_run (\<lambda>t. t = ''ping'') queue_init
     [Arrive ''A'' ''hi'' ''m1'', Arrive ''A'' ''yo'' ''m2'', Resume 0, Finish 0 False] = Some ?S"
    by (simp add: queue_eval)
  have blocked: "queue_run (\<lambda>t. t = ''ping'') queue_init
     [Arrive ''A'' ''hi'' ''m1'', Arrive ''A'' ''yo'' ''m2'', Resume 0, Resume 1] = None"
    by (simp add: queue_eval)
  have h: "1 < length (tasks ?S) \<and> phase (tasks ?S ! 1) = Waiting \<and>
           previous (tasks ?S ! 1) = Some 0 \<and> task_settled (tasks ?S ! 0)"
    by (simp add: task_settled_def)
  from conversation_queue_serial [OF run] h
  have "queue_step (\<lambda>t. t = ''ping'') ?S (Resume 1)
          = Some (?S\<lparr>tasks := (tasks ?S)[1 := (tasks ?S ! 1)\<lparr>phase := Processing\<rparr>]\<rparr>)"
    by blast
  then have "queue_step (\<lambda>t. t = ''ping'') ?S (Resume 1)
     = Some \<lparr>chatQueues = [''A'' \<mapsto> 1],
             tasks = [\<lparr>task_chatId = ''A'', task_messageId = ''m1'', previous = None,
                        phase = Thrown\<rparr>,
                      \<lparr>task_chatId = ''A'', task_messageId = ''m2'', previous = Some 0,
                        phase = Processing\<rparr>]\<rparr>"
    by (simp del: queue_step.simps)
  with run blocked show ?thesis by (simp del: queue_step.simps queue_run.simps)
qed

end
